theory Spec2Isabelle
  imports Complex_Main "HOL-Library.Multiset"
begin

section \<open>Numbers\<close>

text \<open>
  Every score of the engine, and the depth of the search, is a JavaScript \<open>number\<close>.
  The scores that occur are
  \<open>-Infinity\<close>, \<open>Infinity\<close> and finite numbers: sums of the integer constants of
  \<open>chessEngine.ts\<close> (far below \<open>2 ^ 53\<close>, hence exact) and one quotient by 100.
  \<open>NaN\<close> never arises: no operation of the file produces it from these values.
  Finite numbers are rationals here; the comparison operators and \<open>Math.max\<close>,
  \<open>Math.min\<close> are the linear order with \<open>-Infinity\<close> least and \<open>Infinity\<close> greatest.
\<close>

datatype number = NegInfinity | Num rat | Infinity

instantiation number :: linorder
begin

fun less_eq_number :: "number \<Rightarrow> number \<Rightarrow> bool" where
  "less_eq_number NegInfinity y = True"
| "less_eq_number (Num a) NegInfinity = False"
| "less_eq_number (Num a) (Num b) = (a \<le> b)"
| "less_eq_number (Num a) Infinity = True"
| "less_eq_number Infinity Infinity = True"
| "less_eq_number Infinity y = False"

definition less_number :: "number \<Rightarrow> number \<Rightarrow> bool" where
  "less_number x y = (x \<le> y \<and> \<not> y \<le> x)"

instance
proof
  fix x y z :: number
  show "(x < y) = (x \<le> y \<and> \<not> y \<le> x)"
    by (simp add: less_number_def)
  show "x \<le> x"
    by (cases x) simp_all
  show "x \<le> y \<Longrightarrow> y \<le> z \<Longrightarrow> x \<le> z"
    by (cases x; cases y; cases z) simp_all
  show "x \<le> y \<Longrightarrow> y \<le> x \<Longrightarrow> x = y"
    by (cases x; cases y) simp_all
  show "x \<le> y \<or> y \<le> x"
    by (cases x; cases y) auto
qed

end

text \<open>Unary minus of JavaScript.\<close>

fun negate :: "number \<Rightarrow> number" where
  "negate NegInfinity = Infinity"
| "negate (Num a) = Num (- a)"
| "negate Infinity = NegInfinity"

text \<open>
  The arithmetic of doubles gives the exact result rounded to a double. The rounding is
  the parameter \<open>rd\<close> of every function that computes with finite numbers beyond the sums
  of the evaluation; nothing is assumed about it but what a theorem states.

  \<open>x / d\<close> for a finite positive \<open>d\<close>:
\<close>

fun divide_by :: "(rat \<Rightarrow> rat) \<Rightarrow> number \<Rightarrow> rat \<Rightarrow> number" where
  "divide_by rd NegInfinity d = NegInfinity"
| "divide_by rd (Num a) d = Num (rd (a / d))"
| "divide_by rd Infinity d = Infinity"

text \<open>\<open>x - 1\<close>:\<close>

fun decrement :: "(rat \<Rightarrow> rat) \<Rightarrow> number \<Rightarrow> number" where
  "decrement rd NegInfinity = NegInfinity"
| "decrement rd (Num a) = Num (rd (a - 1))"
| "decrement rd Infinity = Infinity"

section \<open>Pieces, moves and the rules engine\<close>

datatype color = White | Black

datatype piece_type = Pawn | Knight | Bishop | Rook | Queen | King

text \<open>\<open>Piece\<close> of chess.js: \<open>{ type, color }\<close>.\<close>

record piece =
  p_type :: piece_type
  p_color :: color

text \<open>
  \<open>Move\<close> of chess.js (verbose form), with the attributes that \<open>chessEngine.ts\<close> reads:
  \<open>san\<close>, \<open>flags\<close>, \<open>piece\<close>, \<open>captured\<close> and \<open>promotion\<close> (the last two may be
  \<open>undefined\<close>).
\<close>

record move =
  m_san :: string
  m_flags :: string
  m_piece :: piece_type
  m_captured :: "piece_type option"
  m_promotion :: "piece_type option"

type_synonym board = "piece option list list"

text \<open>
  The rules engine (chess.js) is outside the repository. It is a parameter: a record of
  the queries that \<open>chessEngine.ts\<close> makes on a position of type \<open>'p\<close>, where a position
  is everything that chess.js keeps about the game (placement, side to move, castling
  rights, clocks, repetition counts).
  \<^item> \<open>legal_moves\<close>: \<open>game.moves({ verbose: true })\<close>, in generation order;
  \<open>make_move\<close>: the position after \<open>game.move(m)\<close>;
  \<^item> \<open>reload\<close>: the position of \<open>new Chess(game.fen())\<close>;
  \<^item> \<open>turn\<close>, \<open>isCheckmate\<close>, \<open>isDraw\<close>, \<open>isGameOver\<close>, \<open>board\<close>: the queries of
  the same name; \<open>board\<close> lists rank 8 first.
\<close>

record 'p rules =
  legal_moves :: "'p \<Rightarrow> move list"
  make_move :: "'p \<Rightarrow> move \<Rightarrow> 'p"
  reload :: "'p \<Rightarrow> 'p"
  turn :: "'p \<Rightarrow> color"
  isCheckmate :: "'p \<Rightarrow> bool"
  isDraw :: "'p \<Rightarrow> bool"
  isGameOver :: "'p \<Rightarrow> bool"
  board :: "'p \<Rightarrow> board"

text \<open>
  A \<open>Chess\<close> object is mutable: \<open>game.move\<close> pushes the position on the undo stack,
  \<open>game.undo\<close> pops it (and does nothing on an empty stack). The object is the current
  position and the stack; every function that mutates it returns the new object.
\<close>

record 'p chess =
  cur :: 'p
  hist :: "'p list"

definition game_move :: "'p rules \<Rightarrow> 'p chess \<Rightarrow> move \<Rightarrow> 'p chess" where
  "game_move R g m = \<lparr>cur = make_move R (cur g) m, hist = cur g # hist g\<rparr>"

definition game_undo :: "'p chess \<Rightarrow> 'p chess" where
  "game_undo g = (case hist g of [] \<Rightarrow> g | p # ps \<Rightarrow> \<lparr>cur = p, hist = ps\<rparr>)"

definition game_copy :: "'p rules \<Rightarrow> 'p chess \<Rightarrow> 'p chess" where
  "game_copy R g = \<lparr>cur = reload R (cur g), hist = []\<rparr>"

section \<open>Static evaluation\<close>

fun pieceValues :: "piece_type \<Rightarrow> int" where
  "pieceValues Pawn = 100"
| "pieceValues Knight = 320"
| "pieceValues Bishop = 330"
| "pieceValues Rook = 500"
| "pieceValues Queen = 900"
| "pieceValues King = 20000"

definition pawnEvalWhite :: "int list list" where
  "pawnEvalWhite =
   [[0,  0,  0,  0,  0,  0,  0,  0],
    [50, 50, 50, 50, 50, 50, 50, 50],
    [10, 10, 20, 30, 30, 20, 10, 10],
    [5,  5, 10, 27, 27, 10,  5,  5],
    [0,  0,  0, 25, 25,  0,  0,  0],
    [5, -5,-10,  0,  0,-10, -5,  5],
    [5, 10, 10,-25,-25, 10, 10,  5],
    [0,  0,  0,  0,  0,  0,  0,  0]]"

definition knightEval :: "int list list" where
  "knightEval =
   [[-50,-40,-30,-30,-30,-30,-40,-50],
    [-40,-20,  0,  0,  0,  0,-20,-40],
    [-30,  0, 10, 15, 15, 10,  0,-30],
    [-30,  5, 15, 20, 20, 15,  5,-30],
    [-30,  0, 15, 20, 20, 15,  0,-30],
    [-30,  5, 10, 15, 15, 10,  5,-30],
    [-40,-20,  0,  5,  5,  0,-20,-40],
    [-50,-40,-30,-30,-30,-30,-40,-50]]"

definition bishopEvalWhite :: "int list list" where
  "bishopEvalWhite =
   [[-20,-10,-10,-10,-10,-10,-10,-20],
    [-10,  0,  0,  0,  0,  0,  0,-10],
    [-10,  0,  5, 10, 10,  5,  0,-10],
    [-10,  5,  5, 10, 10,  5,  5,-10],
    [-10,  0, 10, 10, 10, 10,  0,-10],
    [-10, 10, 10, 10, 10, 10, 10,-10],
    [-10,  5,  0,  0,  0,  0,  5,-10],
    [-20,-10,-10,-10,-10,-10,-10,-20]]"

definition rookEvalWhite :: "int list list" where
  "rookEvalWhite =
   [[0,  0,  0,  0,  0,  0,  0,  0],
    [5, 10, 10, 10, 10, 10, 10,  5],
    [-5,  0,  0,  0,  0,  0,  0, -5],
    [-5,  0,  0,  0,  0,  0,  0, -5],
    [-5,  0,  0,  0,  0,  0,  0, -5],
    [-5,  0,  0,  0,  0,  0,  0, -5],
    [-5,  0,  0,  0,  0,  0,  0, -5],
    [0,  0,  0,  5,  5,  0,  0,  0]]"

definition queenEval :: "int list list" where
  "queenEval =
   [[-20,-10,-10, -5, -5,-10,-10,-20],
    [-10,  0,  0,  0,  0,  0,  0,-10],
    [-10,  0,  5,  5,  5,  5,  0,-10],
    [-5,  0,  5,  5,  5,  5,  0, -5],
    [0,  0,  5,  5,  5,  5,  0, -5],
    [-10,  5,  5,  5,  5,  5,  0,-10],
    [-10,  0,  5,  0,  0,  0,  0,-10],
    [-20,-10,-10, -5, -5,-10,-10,-20]]"

definition kingEvalWhite :: "int list list" where
  "kingEvalWhite =
   [[-30,-40,-40,-50,-50,-40,-40,-30],
    [-30,-40,-40,-50,-50,-40,-40,-30],
    [-30,-40,-40,-50,-50,-40,-40,-30],
    [-30,-40,-40,-50,-50,-40,-40,-30],
    [-20,-30,-30,-40,-40,-30,-30,-20],
    [-10,-20,-20,-20,-20,-20,-20,-10],
    [20, 20,  0,  0,  0,  0, 20, 20],
    [20, 30, 10,  0,  0, 10, 30, 20]]"

definition pawnEvalBlack :: "int list list" where
  "pawnEvalBlack = rev pawnEvalWhite"

definition bishopEvalBlack :: "int list list" where
  "bishopEvalBlack = rev bishopEvalWhite"

definition rookEvalBlack :: "int list list" where
  "rookEvalBlack = rev rookEvalWhite"

definition kingEvalBlack :: "int list list" where
  "kingEvalBlack = rev kingEvalWhite"

text \<open>
  The table lookups. chess.js always returns a board of 8 rows of 8 squares, so the
  indices are below 8; a statement that depends on the value looked up assumes such a
  board.
\<close>

definition getPiecePositionalValue :: "piece \<Rightarrow> nat \<Rightarrow> nat \<Rightarrow> int" where
  "getPiecePositionalValue pc rowIndex colIndex =
     (case p_type pc of
        Pawn \<Rightarrow> if p_color pc = White then pawnEvalWhite ! rowIndex ! colIndex
                else pawnEvalBlack ! rowIndex ! colIndex
      | Knight \<Rightarrow> knightEval ! rowIndex ! colIndex
      | Bishop \<Rightarrow> if p_color pc = White then bishopEvalWhite ! rowIndex ! colIndex
                  else bishopEvalBlack ! rowIndex ! colIndex
      | Rook \<Rightarrow> if p_color pc = White then rookEvalWhite ! rowIndex ! colIndex
                else rookEvalBlack ! rowIndex ! colIndex
      | Queen \<Rightarrow> queenEval ! rowIndex ! colIndex
      | King \<Rightarrow> if p_color pc = White then kingEvalWhite ! rowIndex ! colIndex
                else kingEvalBlack ! rowIndex ! colIndex)"

text \<open>The contribution of one square to \<open>totalEvaluation\<close>.\<close>

definition squareValue :: "nat \<Rightarrow> nat \<Rightarrow> piece option \<Rightarrow> int" where
  "squareValue rowIndex colIndex sq =
     (case sq of
        None \<Rightarrow> 0
      | Some pc \<Rightarrow>
          (let materialValue = pieceValues (p_type pc);
               positionalValue = getPiecePositionalValue pc rowIndex colIndex;
               val = materialValue + positionalValue
           in val * (if p_color pc = White then 1 else -1)))"

definition totalEvaluation :: "board \<Rightarrow> int" where
  "totalEvaluation b =
     (\<Sum>(rowIndex, row) \<leftarrow> enumerate 0 b.
        \<Sum>(colIndex, sq) \<leftarrow> enumerate 0 row. squareValue rowIndex colIndex sq)"

definition evaluateBoard :: "'p rules \<Rightarrow> 'p \<Rightarrow> number" where
  "evaluateBoard R p =
     (if isCheckmate R p then (if turn R p = Black then Infinity else NegInfinity)
      else if isDraw R p then Num 0
      else Num (of_int (totalEvaluation (board R p))))"

definition getEvaluation :: "(rat \<Rightarrow> rat) \<Rightarrow> 'p rules \<Rightarrow> 'p \<Rightarrow> number" where
  "getEvaluation rd R p =
     (let rawEval = evaluateBoard R p;
          pawnAdvantage = divide_by rd rawEval 100
      in max (Num (-10)) (min (Num 10) pawnAdvantage))"

section \<open>Quiescence search\<close>

text \<open>
  \<open>quiescence\<close> has no depth limit and \<open>minimax\<close> counts its depth, a JavaScript
  \<open>number\<close>, down from a value that nothing forces to be a whole number or positive, so
  neither is a total function by its shape. Both take a fuel argument that bounds the nesting of calls: the result is
  \<open>None\<close> when the fuel runs out, and \<open>Some (value, game)\<close> when the call returns
  \<open>value\<close> and leaves the \<open>Chess\<close> object as \<open>game\<close>.
\<close>

definition isCapture :: "move \<Rightarrow> bool" where
  "isCapture m = (CHR ''c'' \<in> set (m_flags m))"

text \<open>\<open>pieceValues[x] || 0\<close> for a piece type that may be \<open>undefined\<close>.\<close>

definition pieceValueOr0 :: "piece_type option \<Rightarrow> int" where
  "pieceValueOr0 x = (case x of None \<Rightarrow> 0 | Some t \<Rightarrow> pieceValues t)"

definition captureScore :: "move \<Rightarrow> int" where
  "captureScore a = pieceValueOr0 (m_captured a) - pieceValues (m_piece a)"

text \<open>
  \<open>Array.prototype.sort\<close> is stable, and the comparator \<open>bScore - aScore\<close> sorts by
  descending score: a stable sort on the negated score.
\<close>

definition captureMoves :: "'p rules \<Rightarrow> 'p \<Rightarrow> move list" where
  "captureMoves R p = sort_key (\<lambda>m. - captureScore m) (filter isCapture (legal_moves R p))"

text \<open>
  The \<open>for\<close> loop of \<open>quiescence\<close> over the remaining captures. \<open>rec g a b\<close> is the
  recursive call \<open>quiescence(game, a, b, !isMaximizingPlayer)\<close>.
\<close>

fun quiescence_loop ::
  "('p chess \<Rightarrow> number \<Rightarrow> number \<Rightarrow> (number \<times> 'p chess) option) \<Rightarrow> 'p rules \<Rightarrow> bool \<Rightarrow>
   move list \<Rightarrow> 'p chess \<Rightarrow> number \<Rightarrow> number \<Rightarrow> (number \<times> 'p chess) option" where
  "quiescence_loop rec R isMaximizingPlayer [] g alpha beta =
     Some (if isMaximizingPlayer then alpha else beta, g)"
| "quiescence_loop rec R isMaximizingPlayer (m # ms) g alpha beta =
     (case rec (game_move R g m) alpha beta of
        None \<Rightarrow> None
      | Some (score, g1) \<Rightarrow>
          (let g2 = game_undo g1 in
           if isMaximizingPlayer then
             (if score \<ge> beta then Some (beta, g2)
              else quiescence_loop rec R isMaximizingPlayer ms g2
                     (if score > alpha then score else alpha) beta)
           else
             (if score \<le> alpha then Some (alpha, g2)
              else quiescence_loop rec R isMaximizingPlayer ms g2
                     alpha (if score < beta then score else beta))))"

primrec quiescence ::
  "nat \<Rightarrow> 'p rules \<Rightarrow> 'p chess \<Rightarrow> number \<Rightarrow> number \<Rightarrow> bool \<Rightarrow> (number \<times> 'p chess) option" where
  "quiescence 0 R g alpha beta isMaximizingPlayer = None"
| "quiescence (Suc fuel) R g alpha beta isMaximizingPlayer =
     (let stand_pat = evaluateBoard R (cur g) in
      if isMaximizingPlayer then
        (if stand_pat \<ge> beta then Some (beta, g)
         else quiescence_loop (\<lambda>g' a b. quiescence fuel R g' a b (\<not> isMaximizingPlayer))
                R isMaximizingPlayer (captureMoves R (cur g)) g
                (if stand_pat > alpha then stand_pat else alpha) beta)
      else
        (if stand_pat \<le> alpha then Some (alpha, g)
         else quiescence_loop (\<lambda>g' a b. quiescence fuel R g' a b (\<not> isMaximizingPlayer))
                R isMaximizingPlayer (captureMoves R (cur g)) g
                alpha (if stand_pat < beta then stand_pat else beta)))"

section \<open>Alpha-beta minimax\<close>

text \<open>
  The score of the move ordering in \<open>minimax\<close>. chess.js sets \<open>captured\<close> on every move
  whose flags contain \<open>c\<close>, so \<open>pieceValues[a.captured!]\<close> is a number there.
\<close>

definition orderScore :: "move \<Rightarrow> int" where
  "orderScore a =
     (if isCapture a then 10 * pieceValueOr0 (m_captured a) - pieceValues (m_piece a) else 0)
     + (case m_promotion a of None \<Rightarrow> 0 | Some t \<Rightarrow> pieceValues t)"

definition orderedMoves :: "'p rules \<Rightarrow> 'p \<Rightarrow> move list" where
  "orderedMoves R p = sort_key (\<lambda>m. - orderScore m) (legal_moves R p)"

text \<open>
  The two \<open>for\<close> loops of \<open>minimax\<close>; \<open>rec g a b\<close> is the recursive call at
  \<open>depth - 1\<close> for the other player.
\<close>

fun max_loop ::
  "('p chess \<Rightarrow> number \<Rightarrow> number \<Rightarrow> (number \<times> 'p chess) option) \<Rightarrow> 'p rules \<Rightarrow>
   move list \<Rightarrow> 'p chess \<Rightarrow> number \<Rightarrow> number \<Rightarrow> number \<Rightarrow> (number \<times> 'p chess) option" where
  "max_loop rec R [] g alpha beta maxEval = Some (maxEval, g)"
| "max_loop rec R (m # ms) g alpha beta maxEval =
     (case rec (game_move R g m) alpha beta of
        None \<Rightarrow> None
      | Some (currentEval, g1) \<Rightarrow>
          (let g2 = game_undo g1;
               maxEval' = max maxEval currentEval;
               alpha' = max alpha currentEval
           in if beta \<le> alpha' then Some (maxEval', g2)
              else max_loop rec R ms g2 alpha' beta maxEval'))"

fun min_loop ::
  "('p chess \<Rightarrow> number \<Rightarrow> number \<Rightarrow> (number \<times> 'p chess) option) \<Rightarrow> 'p rules \<Rightarrow>
   move list \<Rightarrow> 'p chess \<Rightarrow> number \<Rightarrow> number \<Rightarrow> number \<Rightarrow> (number \<times> 'p chess) option" where
  "min_loop rec R [] g alpha beta minEval = Some (minEval, g)"
| "min_loop rec R (m # ms) g alpha beta minEval =
     (case rec (game_move R g m) alpha beta of
        None \<Rightarrow> None
      | Some (currentEval, g1) \<Rightarrow>
          (let g2 = game_undo g1;
               minEval' = min minEval currentEval;
               beta' = min beta currentEval
           in if beta' \<le> alpha then Some (minEval', g2)
              else min_loop rec R ms g2 alpha beta' minEval'))"

text \<open>
  \<open>depth\<close> is a \<open>number\<close>, and any number may be passed: the test \<open>depth === 0\<close> holds
  for the number 0 only, and \<open>depth - 1\<close> is the rounded difference. The depth \<open>NaN\<close>
  goes the way of the depth \<open>Infinity\<close>: it is never 0, and \<open>- 1\<close> leaves it as it is.
\<close>

primrec minimax ::
  "nat \<Rightarrow> (rat \<Rightarrow> rat) \<Rightarrow> 'p rules \<Rightarrow> 'p chess \<Rightarrow> number \<Rightarrow> number \<Rightarrow> number \<Rightarrow> bool \<Rightarrow>
   (number \<times> 'p chess) option" where
  "minimax 0 rd R g depth alpha beta isMaximizingPlayer = None"
| "minimax (Suc fuel) rd R g depth alpha beta isMaximizingPlayer =
     (if depth = Num 0 \<or> isGameOver R (cur g) then
        quiescence fuel R g alpha beta isMaximizingPlayer
      else
        (let newGameMoves = orderedMoves R (cur g) in
         if isMaximizingPlayer then
           max_loop (\<lambda>g' a b. minimax fuel rd R g' (decrement rd depth) a b False)
             R newGameMoves g alpha beta NegInfinity
         else
           min_loop (\<lambda>g' a b. minimax fuel rd R g' (decrement rd depth) a b True)
             R newGameMoves g alpha beta Infinity))"

section \<open>Root search and move selection\<close>

text \<open>
  The loop of \<open>findBestMoveForAnalysis\<close> over the root moves; \<open>search m\<close> is the call of
  \<open>minimax\<close> on the copy of the game after \<open>m\<close>. The promise and the timer only defer the
  computation: the functions below give the value that the promise resolves to.
\<close>

fun root_loop ::
  "(move \<Rightarrow> (number \<times> 'p chess) option) \<Rightarrow> bool \<Rightarrow> move list \<Rightarrow> number \<Rightarrow> move \<Rightarrow>
   move option" where
  "root_loop search isMaximizing [] bestValue bestMoveFound = Some bestMoveFound"
| "root_loop search isMaximizing (m # ms) bestValue bestMoveFound =
     (case search m of
        None \<Rightarrow> None
      | Some (boardValue, gameCopy) \<Rightarrow>
          if isMaximizing then
            (if boardValue > bestValue then root_loop search isMaximizing ms boardValue m
             else root_loop search isMaximizing ms bestValue bestMoveFound)
          else
            (if boardValue < bestValue then root_loop search isMaximizing ms boardValue m
             else root_loop search isMaximizing ms bestValue bestMoveFound))"

text \<open>
  The result is \<open>None\<close> when the fuel runs out, \<open>Some None\<close> for \<open>resolve(null)\<close> and
  \<open>Some (Some m)\<close> for \<open>resolve(m)\<close>.
\<close>

definition findBestMoveForAnalysis ::
  "nat \<Rightarrow> (rat \<Rightarrow> rat) \<Rightarrow> 'p rules \<Rightarrow> 'p chess \<Rightarrow> number \<Rightarrow> move option option" where
  "findBestMoveForAnalysis fuel rd R game depth =
     (let newGameMoves = legal_moves R (cur game) in
      case newGameMoves of
        [] \<Rightarrow> Some None
      | m0 # _ \<Rightarrow>
          (let isMaximizing = (turn R (cur game) = White);
               bestValue = (if isMaximizing then NegInfinity else Infinity)
           in map_option Some
                (root_loop
                   (\<lambda>m. minimax fuel rd R (game_move R (game_copy R game) m)
                          (decrement rd depth) NegInfinity Infinity (\<not> isMaximizing))
                   isMaximizing newGameMoves bestValue m0)))"

text \<open>
  Modelled from the spec: the type \<open>Difficulty\<close> is declared in \<open>../types\<close>, which is not
  among the sources. Its values are the named tiers, beginner to master, which are the
  keys of \<open>difficultySettings\<close>.
\<close>

datatype Difficulty = beginner | intermediate | advanced | master

record settings =
  s_depth :: number
  s_errorRate :: rat

text \<open>
  The literals \<open>0.8\<close> and \<open>0.2\<close> denote the doubles nearest to them, which are
  \<open>3602879701896397 / 2^52\<close> and \<open>3602879701896397 / 2^54\<close>; \<open>0.5\<close> and \<open>0\<close> are doubles.
\<close>

fun difficultySettings :: "Difficulty \<Rightarrow> settings" where
  "difficultySettings beginner =
     \<lparr>s_depth = Num 2, s_errorRate = 3602879701896397 / 4503599627370496\<rparr>"
| "difficultySettings intermediate = \<lparr>s_depth = Num 3, s_errorRate = 1 / 2\<rparr>"
| "difficultySettings advanced =
     \<lparr>s_depth = Num 3, s_errorRate = 3602879701896397 / 18014398509481984\<rparr>"
| "difficultySettings master = \<lparr>s_depth = Num 4, s_errorRate = 0\<rparr>"

text \<open>
  What the promise of \<open>findComputerMove\<close> resolves to: \<open>null\<close>, a move, or
  \<open>undefined\<close> when the index computed from the random number is not an index of
  \<open>nonBestMoves\<close>.
\<close>

datatype resolution = Null | Undefined | Move move

text \<open>
  \<open>findComputerMove\<close> with the table of settings as an argument; the function of the
  source is the instance at \<open>difficultySettings\<close>. \<open>r1\<close> and \<open>r2\<close> are the values of the
  first and the second call of \<open>Math.random()\<close>, and the product with the length is the
  rounded product of doubles. The result is \<open>None\<close> when the fuel of the search runs out.
\<close>

definition findComputerMoveWith ::
  "(Difficulty \<Rightarrow> settings) \<Rightarrow> nat \<Rightarrow> (rat \<Rightarrow> rat) \<Rightarrow> 'p rules \<Rightarrow> rat \<Rightarrow> rat \<Rightarrow> 'p chess \<Rightarrow>
   Difficulty \<Rightarrow> resolution option" where
  "findComputerMoveWith table fuel rd R r1 r2 game difficulty =
     (let settings = table difficulty in
      case findBestMoveForAnalysis fuel rd R game (s_depth settings) of
        None \<Rightarrow> None
      | Some None \<Rightarrow> Some Null
      | Some (Some bestMoveFound) \<Rightarrow>
          (let allMoves = legal_moves R (cur game) in
           if length allMoves > 1 \<and> r1 < s_errorRate settings then
             (let nonBestMoves = filter (\<lambda>m. m_san m \<noteq> m_san bestMoveFound) allMoves in
              if length nonBestMoves > 0 then
                (let i = \<lfloor>rd (r2 * of_nat (length nonBestMoves))\<rfloor> in
                 if 0 \<le> i \<and> i < int (length nonBestMoves)
                 then Some (Move (nonBestMoves ! nat i))
                 else Some Undefined)
              else Some (Move bestMoveFound))
           else Some (Move bestMoveFound)))"

definition findComputerMove ::
  "nat \<Rightarrow> (rat \<Rightarrow> rat) \<Rightarrow> 'p rules \<Rightarrow> rat \<Rightarrow> rat \<Rightarrow> 'p chess \<Rightarrow> Difficulty \<Rightarrow>
   resolution option" where
  "findComputerMove fuel rd R r1 r2 game difficulty =
     findComputerMoveWith difficultySettings fuel rd R r1 r2 game difficulty"

section \<open>Exhaustive search\<close>

text \<open>
  The reference of the pruning, written from the specification: the same search without
  a window and without cutoffs. Every capture (in quiescence) and every legal move (in
  minimax) is searched, in generation order, and the best value for the player to move
  is kept; in quiescence the player may also stand pat. It works on positions, since it
  is a value and not a procedure on the \<open>Chess\<close> object.
\<close>

fun best_of :: "(move \<Rightarrow> number option) \<Rightarrow> bool \<Rightarrow> move list \<Rightarrow> number \<Rightarrow> number option" where
  "best_of child isMax [] best = Some best"
| "best_of child isMax (m # ms) best =
     (case child m of
        None \<Rightarrow> None
      | Some v \<Rightarrow> best_of child isMax ms (if isMax then max best v else min best v))"

primrec exhaustive_quiescence :: "nat \<Rightarrow> 'p rules \<Rightarrow> 'p \<Rightarrow> bool \<Rightarrow> number option" where
  "exhaustive_quiescence 0 R p isMax = None"
| "exhaustive_quiescence (Suc fuel) R p isMax =
     best_of (\<lambda>m. exhaustive_quiescence fuel R (make_move R p m) (\<not> isMax)) isMax
       (filter isCapture (legal_moves R p)) (evaluateBoard R p)"

primrec exhaustive_minimax ::
  "nat \<Rightarrow> (rat \<Rightarrow> rat) \<Rightarrow> 'p rules \<Rightarrow> 'p \<Rightarrow> number \<Rightarrow> bool \<Rightarrow> number option" where
  "exhaustive_minimax 0 rd R p depth isMax = None"
| "exhaustive_minimax (Suc fuel) rd R p depth isMax =
     (if depth = Num 0 \<or> isGameOver R p then exhaustive_quiescence fuel R p isMax
      else best_of
             (\<lambda>m. exhaustive_minimax fuel rd R (make_move R p m) (decrement rd depth) (\<not> isMax))
             isMax (legal_moves R p) (if isMax then NegInfinity else Infinity))"

section \<open>Notions used in the statements\<close>

text \<open>
  The value that the root driver compares for a root move: the result of its call of
  \<open>minimax\<close> on the copy of the game after the move.
\<close>

definition rootValue ::
  "nat \<Rightarrow> (rat \<Rightarrow> rat) \<Rightarrow> 'p rules \<Rightarrow> 'p chess \<Rightarrow> number \<Rightarrow> move \<Rightarrow> number option" where
  "rootValue fuel rd R game d m =
     map_option fst
       (minimax fuel rd R (game_move R (game_copy R game) m) (decrement rd d)
          NegInfinity Infinity (turn R (cur game) \<noteq> White))"

text \<open>\<open>better c a b\<close>: the value \<open>a\<close> is strictly better than \<open>b\<close> for the side \<open>c\<close>.\<close>

definition better :: "color \<Rightarrow> number \<Rightarrow> number \<Rightarrow> bool" where
  "better c a b = (if c = White then b < a else a < b)"

text \<open>
  The colour mirror of a board: the ranks in reverse order, every piece in the other
  colour.
\<close>

definition swap_color :: "piece \<Rightarrow> piece" where
  "swap_color pc = pc\<lparr>p_color := (if p_color pc = White then Black else White)\<rparr>"

definition mirror_board :: "board \<Rightarrow> board" where
  "mirror_board b = rev (map (map (map_option swap_color)) b)"

text \<open>
  A board as chess.js returns it, 8 rows of 8 squares, and a board without knights and
  queens.
\<close>

definition wf_board :: "board \<Rightarrow> bool" where
  "wf_board b = (length b = 8 \<and> list_all (\<lambda>row. length row = 8) b)"

definition mirrored_types :: "board \<Rightarrow> bool" where
  "mirrored_types b =
     list_all (list_all (\<lambda>sq. case sq of
                                 None \<Rightarrow> True
                               | Some pc \<Rightarrow> p_type pc \<noteq> Knight \<and> p_type pc \<noteq> Queen)) b"

section \<open>A concrete rules engine\<close>

text \<open>
  An instance of the rules engine, on which the theorems below are exercised. It takes
  a position to be a finite game tree: a node carries what the queries
  report and the list of its legal moves with the positions they lead to. The game is
  over at a node that is a mate or a draw or has no move.
\<close>

datatype tpos =
  TPos (t_board: board) (t_turn: color) (t_checkmate: bool) (t_draw: bool)
       (t_moves: "(move \<times> tpos) list")

definition tree_move :: "tpos \<Rightarrow> move \<Rightarrow> tpos" where
  "tree_move p m =
     (case find (\<lambda>e. m_san (fst e) = m_san m) (t_moves p) of
        None \<Rightarrow> p
      | Some e \<Rightarrow> snd e)"

definition tree_rules :: "tpos rules" where
  "tree_rules =
     \<lparr>legal_moves = (\<lambda>p. map fst (t_moves p)),
      make_move = tree_move,
      reload = (\<lambda>p. p),
      turn = t_turn,
      isCheckmate = t_checkmate,
      isDraw = t_draw,
      isGameOver = (\<lambda>p. t_checkmate p \<or> t_draw p \<or> t_moves p = []),
      board = t_board\<rparr>"


text \<open>A fresh \<open>Chess\<close> object at a position.\<close>

definition new_game :: "'p \<Rightarrow> 'p chess" where
  "new_game p = \<lparr>cur = p, hist = []\<rparr>"

definition quiet :: "string \<Rightarrow> piece_type \<Rightarrow> move" where
  "quiet s t = \<lparr>m_san = s, m_flags = ''n'', m_piece = t, m_captured = None, m_promotion = None\<rparr>"

definition capture :: "string \<Rightarrow> piece_type \<Rightarrow> piece_type \<Rightarrow> move" where
  "capture s t c =
     \<lparr>m_san = s, m_flags = ''c'', m_piece = t, m_captured = Some c, m_promotion = None\<rparr>"

definition wK :: "piece option" where "wK = Some \<lparr>p_type = King, p_color = White\<rparr>"
definition bK :: "piece option" where "bK = Some \<lparr>p_type = King, p_color = Black\<rparr>"
definition wR :: "piece option" where "wR = Some \<lparr>p_type = Rook, p_color = White\<rparr>"
definition bR :: "piece option" where "bR = Some \<lparr>p_type = Rook, p_color = Black\<rparr>"
definition wN :: "piece option" where "wN = Some \<lparr>p_type = Knight, p_color = White\<rparr>"
definition bN :: "piece option" where "bN = Some \<lparr>p_type = Knight, p_color = Black\<rparr>"
definition wP :: "piece option" where "wP = Some \<lparr>p_type = Pawn, p_color = White\<rparr>"
definition bP :: "piece option" where "bP = Some \<lparr>p_type = Pawn, p_color = Black\<rparr>"

definition empty_row :: "piece option list" where
  "empty_row = [None, None, None, None, None, None, None, None]"

subsection \<open>A rook ending\<close>

text \<open>
  White (king g1, rook d1, pawn g2) is to move against king g8, rook d8, pawn d7. The
  rook can take the defended pawn on d7 and be retaken, or the king can step to f1; then
  Black can play the rook to e8.
\<close>

definition pos_retaken :: tpos where
  "pos_retaken = TPos
     [[None, None, None, None, None, None, bK, None],
      [None, None, None, bR, None, None, None, None],
      empty_row, empty_row, empty_row, empty_row,
      [None, None, None, None, None, None, wP, None],
      [None, None, None, None, None, None, wK, None]]
     White False False []"

definition pos_declined :: tpos where
  "pos_declined = TPos
     [[None, None, None, bR, None, bK, None, None],
      [None, None, None, wR, None, None, None, None],
      empty_row, empty_row, empty_row, empty_row,
      [None, None, None, None, None, None, wP, None],
      [None, None, None, None, None, None, wK, None]]
     White False False []"

definition pos_taken :: tpos where
  "pos_taken = TPos
     [[None, None, None, bR, None, None, bK, None],
      [None, None, None, wR, None, None, None, None],
      empty_row, empty_row, empty_row, empty_row,
      [None, None, None, None, None, None, wP, None],
      [None, None, None, None, None, None, wK, None]]
     Black False False
     [(quiet ''Kf8'' King, pos_declined), (capture ''Rxd7'' Rook Rook, pos_retaken)]"

definition pos_rook_e8 :: tpos where
  "pos_rook_e8 = TPos
     [[None, None, None, None, bR, None, bK, None],
      [None, None, None, bP, None, None, None, None],
      empty_row, empty_row, empty_row, empty_row,
      [None, None, None, None, None, None, wP, None],
      [None, None, None, wR, None, wK, None, None]]
     White False False []"

definition pos_king_f1 :: tpos where
  "pos_king_f1 = TPos
     [[None, None, None, bR, None, None, bK, None],
      [None, None, None, bP, None, None, None, None],
      empty_row, empty_row, empty_row, empty_row,
      [None, None, None, None, None, None, wP, None],
      [None, None, None, wR, None, wK, None, None]]
     Black False False
     [(quiet ''Re8'' Rook, pos_rook_e8)]"

definition pos_root :: tpos where
  "pos_root = TPos
     [[None, None, None, bR, None, None, bK, None],
      [None, None, None, bP, None, None, None, None],
      empty_row, empty_row, empty_row, empty_row,
      [None, None, None, None, None, None, wP, None],
      [None, None, None, wR, None, None, wK, None]]
     White False False
     [(quiet ''Kf1'' King, pos_king_f1), (capture ''Rxd7'' Rook Pawn, pos_taken)]"

text \<open>The same position with two rook moves of equal value.\<close>

definition pos_rook_c1 :: tpos where
  "pos_rook_c1 = TPos
     [[None, None, None, bR, None, None, bK, None],
      [None, None, None, bP, None, None, None, None],
      empty_row, empty_row, empty_row, empty_row,
      [None, None, None, None, None, None, wP, None],
      [None, None, wR, None, None, None, wK, None]]
     Black False False []"

definition pos_rook_b1 :: tpos where
  "pos_rook_b1 = TPos
     [[None, None, None, bR, None, None, bK, None],
      [None, None, None, bP, None, None, None, None],
      empty_row, empty_row, empty_row, empty_row,
      [None, None, None, None, None, None, wP, None],
      [None, wR, None, None, None, None, wK, None]]
     Black False False []"

definition pos_two_rook_moves :: tpos where
  "pos_two_rook_moves = TPos (t_board pos_root) White False False
     [(quiet ''Rc1'' Rook, pos_rook_c1), (quiet ''Rb1'' Rook, pos_rook_b1)]"

subsection \<open>A capture en passant\<close>

text \<open>
  The pawn on e5 can take the pawn that has just moved to d5; chess.js gives this move
  the flags \<open>e\<close>.
\<close>

definition en_passant :: move where
  "en_passant =
     \<lparr>m_san = ''exd6'', m_flags = ''e'', m_piece = Pawn, m_captured = Some Pawn,
      m_promotion = None\<rparr>"

definition pos_en_passant_taken :: tpos where
  "pos_en_passant_taken = TPos
     [[None, None, None, None, bK, None, None, None],
      empty_row,
      [None, None, None, wP, None, None, None, None],
      empty_row, empty_row, empty_row, empty_row,
      [None, None, None, None, wK, None, None, None]]
     Black False False []"

definition pos_en_passant :: tpos where
  "pos_en_passant = TPos
     [[None, None, None, None, bK, None, None, None],
      empty_row, empty_row,
      [None, None, None, bP, wP, None, None, None],
      empty_row, empty_row, empty_row,
      [None, None, None, None, wK, None, None, None]]
     White False False
     [(en_passant, pos_en_passant_taken)]"

subsection \<open>A position and its colour mirror\<close>

text \<open>
  White king e1, knight d2, pawn a2 against the king on e8, White to move
  (\<open>4k3/8/8/8/8/8/P2N4/4K3 w\<close>), and Black king e8, knight d7, pawn a7 against the king
  on e1, Black to move (\<open>4k3/p2n4/8/8/8/8/8/4K3 b\<close>). In each the knight can go to the
  f-file.
\<close>

definition pos_knight_f3 :: tpos where
  "pos_knight_f3 = TPos
     [[None, None, None, None, bK, None, None, None],
      empty_row, empty_row, empty_row, empty_row,
      [None, None, None, None, None, wN, None, None],
      [wP, None, None, None, None, None, None, None],
      [None, None, None, None, wK, None, None, None]]
     Black False False []"

definition pos_knight :: tpos where
  "pos_knight = TPos
     [[None, None, None, None, bK, None, None, None],
      empty_row, empty_row, empty_row, empty_row, empty_row,
      [wP, None, None, wN, None, None, None, None],
      [None, None, None, None, wK, None, None, None]]
     White False False
     [(quiet ''Nf3'' Knight, pos_knight_f3)]"

definition pos_knight_f6 :: tpos where
  "pos_knight_f6 = TPos
     [[None, None, None, None, bK, None, None, None],
      [bP, None, None, None, None, None, None, None],
      [None, None, None, None, None, bN, None, None],
      empty_row, empty_row, empty_row, empty_row,
      [None, None, None, None, wK, None, None, None]]
     White False False []"

definition pos_knight_mirrored :: tpos where
  "pos_knight_mirrored = TPos
     [[None, None, None, None, bK, None, None, None],
      [bP, None, None, bN, None, None, None, None],
      empty_row, empty_row, empty_row, empty_row, empty_row,
      [None, None, None, None, wK, None, None, None]]
     Black False False
     [(quiet ''Nf6'' Knight, pos_knight_f6)]"

subsection \<open>Two mates\<close>

text \<open>
  Black to move and mated on the back rank by the rook on d8, and White to move and
  mated by the rook on d1.
\<close>

definition pos_mate :: tpos where
  "pos_mate = TPos
     [[None, None, None, wR, None, None, bK, None],
      [None, None, None, None, None, bP, bP, bP],
      empty_row, empty_row, empty_row, empty_row,
      [None, None, None, None, None, None, wP, None],
      [None, None, None, None, None, None, wK, None]]
     Black True False []"

definition pos_mated_white :: tpos where
  "pos_mated_white = TPos
     [[None, None, None, None, None, None, bK, None],
      [None, None, None, None, None, None, bP, None],
      empty_row, empty_row, empty_row, empty_row,
      [None, None, None, None, None, wP, wP, wP],
      [None, None, None, bR, None, None, wK, None]]
     White True False []"

subsection \<open>A mate in one\<close>



section \<open>The make/undo discipline\<close>

lemma game_undo_move: "game_undo (game_move R g m) = g"
  by (simp add: game_undo_def game_move_def)

lemma quiescence_loop_frame:
  assumes "\<And>h a b v h'. rec h a b = Some (v, h') \<Longrightarrow> h' = h"
  shows "quiescence_loop rec R mx ms g alpha beta = Some (v, g') \<Longrightarrow> g' = g"
proof (induction ms arbitrary: alpha beta)
  case Nil
  then show ?case by simp
next
  case (Cons m ms)
  from Cons.prems obtain score g1 where r: "rec (game_move R g m) alpha beta = Some (score, g1)"
    by (auto split: option.splits)
  then have g1: "game_undo g1 = g"
    using assms game_undo_move by metis
  from Cons.prems r g1 have
    "v = beta \<and> g' = g \<or> v = alpha \<and> g' = g \<or>
     (\<exists>a b. quiescence_loop rec R mx ms g a b = Some (v, g'))"
    by (auto simp: Let_def split: if_splits)
  then show ?case
    using Cons.IH by blast
qed

lemma quiescence_frame:
  "quiescence fuel R g alpha beta mx = Some (v, g') \<Longrightarrow> g' = g"
proof (induction fuel arbitrary: g alpha beta mx v g')
  case 0
  then show ?case by simp
next
  case (Suc fuel)
  have rec: "\<And>h a b w h'. quiescence fuel R h a b (\<not> mx) = Some (w, h') \<Longrightarrow> h' = h"
    by (rule Suc.IH)
  from Suc.prems show ?case
    by (auto simp: Let_def split: if_splits dest: quiescence_loop_frame [rotated, OF _ rec])
qed

lemma max_loop_frame:
  assumes "\<And>h a b v h'. rec h a b = Some (v, h') \<Longrightarrow> h' = h"
  shows "max_loop rec R ms g alpha beta best = Some (v, g') \<Longrightarrow> g' = g"
proof (induction ms arbitrary: alpha best)
  case Nil
  then show ?case by simp
next
  case (Cons m ms)
  from Cons.prems obtain e g1 where r: "rec (game_move R g m) alpha beta = Some (e, g1)"
    by (auto split: option.splits)
  then have g1: "game_undo g1 = g"
    using assms game_undo_move by metis
  from Cons.prems r g1 have
    "g' = g \<or> (\<exists>a w. max_loop rec R ms g a beta w = Some (v, g'))"
    by (auto simp: Let_def split: if_splits)
  then show ?case
    using Cons.IH by blast
qed

lemma min_loop_frame:
  assumes "\<And>h a b v h'. rec h a b = Some (v, h') \<Longrightarrow> h' = h"
  shows "min_loop rec R ms g alpha beta best = Some (v, g') \<Longrightarrow> g' = g"
proof (induction ms arbitrary: beta best)
  case Nil
  then show ?case by simp
next
  case (Cons m ms)
  from Cons.prems obtain e g1 where r: "rec (game_move R g m) alpha beta = Some (e, g1)"
    by (auto split: option.splits)
  then have g1: "game_undo g1 = g"
    using assms game_undo_move by metis
  from Cons.prems r g1 have
    "g' = g \<or> (\<exists>b w. min_loop rec R ms g alpha b w = Some (v, g'))"
    by (auto simp: Let_def split: if_splits)
  then show ?case
    using Cons.IH by blast
qed

lemma minimax_frame:
  "minimax fuel rd R g d alpha beta mx = Some (v, g') \<Longrightarrow> g' = g"
proof (induction fuel arbitrary: g d alpha beta mx v g')
  case 0
  then show ?case by simp
next
  case (Suc fuel)
  have rec: "\<And>h a b w h' d' mx'. minimax fuel rd R h d' a b mx' = Some (w, h') \<Longrightarrow> h' = h"
    by (rule Suc.IH)
  from Suc.prems show ?case
    by (auto simp: Let_def split: if_splits dest: quiescence_frame
        max_loop_frame [rotated, OF _ rec] min_loop_frame [rotated, OF _ rec])
qed

lemma quiescence_loop_bounds:
  "alpha \<le> beta \<Longrightarrow> quiescence_loop rec R mx ms g alpha beta = Some (v, g') \<Longrightarrow>
   alpha \<le> v \<and> v \<le> beta"
proof (induction ms arbitrary: alpha beta g)
  case Nil
  then show ?case by (auto split: if_splits)
next
  case (Cons m ms)
  from Cons.prems(2) obtain score g1 where r: "rec (game_move R g m) alpha beta = Some (score, g1)"
    by (auto split: option.splits)
  show ?case
  proof (cases mx)
    case True
    show ?thesis
    proof (cases "score \<ge> beta")
      case True
      with Cons.prems r \<open>mx\<close> show ?thesis by simp
    next
      case False
      let ?a = "if score > alpha then score else alpha"
      from False Cons.prems r \<open>mx\<close>
      have "quiescence_loop rec R mx ms (game_undo g1) ?a beta = Some (v, g')"
        by (simp add: Let_def)
      moreover have "?a \<le> beta" using False Cons.prems(1) by auto
      ultimately have "?a \<le> v \<and> v \<le> beta" by (rule Cons.IH [rotated])
      then show ?thesis by (auto split: if_splits)
    qed
  next
    case False
    show ?thesis
    proof (cases "score \<le> alpha")
      case True
      with Cons.prems r \<open>\<not> mx\<close> show ?thesis by simp
    next
      case nle: False
      let ?b = "if score < beta then score else beta"
      from nle Cons.prems r \<open>\<not> mx\<close>
      have "quiescence_loop rec R mx ms (game_undo g1) alpha ?b = Some (v, g')"
        by (simp add: Let_def)
      moreover have "alpha \<le> ?b" using nle Cons.prems(1) by auto
      ultimately have "alpha \<le> v \<and> v \<le> ?b" by (rule Cons.IH [rotated])
      then show ?thesis by (auto split: if_splits)
    qed
  qed
qed

lemma quiescence_bounds:
  "alpha \<le> beta \<Longrightarrow> quiescence fuel R g alpha beta mx = Some (v, g') \<Longrightarrow>
   alpha \<le> v \<and> v \<le> beta"
proof (cases fuel)
  case 0
  then show "quiescence fuel R g alpha beta mx = Some (v, g') \<Longrightarrow> ?thesis" by simp
next
  case (Suc n)
  assume ab: "alpha \<le> beta" and q: "quiescence fuel R g alpha beta mx = Some (v, g')"
  let ?sp = "evaluateBoard R (cur g)"
  show ?thesis
  proof (cases mx)
    case True
    show ?thesis
    proof (cases "?sp \<ge> beta")
      case True
      with q ab Suc \<open>mx\<close> show ?thesis by simp
    next
      case False
      let ?a = "if ?sp > alpha then ?sp else alpha"
      from False q Suc \<open>mx\<close> have "quiescence_loop (\<lambda>g' a b. quiescence n R g' a b (\<not> mx))
                R mx (captureMoves R (cur g)) g ?a beta = Some (v, g')"
        by (simp add: Let_def)
      moreover have "?a \<le> beta" using False ab by auto
      ultimately have "?a \<le> v \<and> v \<le> beta" by (rule quiescence_loop_bounds [rotated])
      then show ?thesis by (auto split: if_splits)
    qed
  next
    case False
    show ?thesis
    proof (cases "?sp \<le> alpha")
      case True
      with q ab Suc \<open>\<not> mx\<close> show ?thesis by simp
    next
      case nle: False
      let ?b = "if ?sp < beta then ?sp else beta"
      from nle q Suc \<open>\<not> mx\<close> have "quiescence_loop (\<lambda>g' a b. quiescence n R g' a b (\<not> mx))
                R mx (captureMoves R (cur g)) g alpha ?b = Some (v, g')"
        by (simp add: Let_def)
      moreover have "alpha \<le> ?b" using nle ab by auto
      ultimately have "alpha \<le> v \<and> v \<le> ?b" by (rule quiescence_loop_bounds [rotated])
      then show ?thesis by (auto split: if_splits)
    qed
  qed
qed

section \<open>The exhaustive value is independent of the move order\<close>

lemma best_of_max_ge: "best_of f True ms acc = Some v \<Longrightarrow> acc \<le> v"
proof (induction ms arbitrary: acc)
  case Nil
  then show ?case by simp
next
  case (Cons m ms)
  then obtain w where "f m = Some w" "best_of f True ms (max acc w) = Some v"
    by (auto split: option.splits)
  then have "max acc w \<le> v" using Cons.IH by blast
  then show ?case by simp
qed

lemma best_of_min_le: "best_of f False ms acc = Some v \<Longrightarrow> v \<le> acc"
proof (induction ms arbitrary: acc)
  case Nil
  then show ?case by simp
next
  case (Cons m ms)
  then obtain w where "f m = Some w" "best_of f False ms (min acc w) = Some v"
    by (auto split: option.splits)
  then have "v \<le> min acc w" using Cons.IH by blast
  then show ?case by simp
qed

lemma best_of_max_shift:
  "best_of f True ms acc = Some v \<Longrightarrow> best_of f True ms (max a acc) = Some (max a v)"
  by (induction ms arbitrary: acc) (auto split: option.splits simp: max.assoc)

lemma best_of_min_shift:
  "best_of f False ms acc = Some v \<Longrightarrow> best_of f False ms (min b acc) = Some (min b v)"
  by (induction ms arbitrary: acc) (auto split: option.splits simp: min.assoc)

lemma best_of_fold:
  "best_of f mx ms acc =
     (if \<forall>m \<in> set ms. f m \<noteq> None
      then Some (fold (\<lambda>m a. if mx then max a (the (f m)) else min a (the (f m))) ms acc)
      else None)"
  by (induction ms arbitrary: acc) (auto split: option.splits)

lemma best_of_mset:
  assumes "mset ms = mset ms'"
  shows "best_of f mx ms acc = best_of f mx ms' acc"
proof -
  let ?step = "\<lambda>m a. if mx then max a (the (f m)) else min a (the (f m))"
  have "fold ?step ms = fold ?step ms'"
    by (rule fold_multiset_equiv [OF _ assms]) (auto simp: fun_eq_iff max.left_commute min.left_commute max.commute min.commute)
  moreover have "set ms = set ms'"
    using assms by (rule mset_eq_setD)
  ultimately show ?thesis
    by (simp add: best_of_fold)
qed

lemma best_of_sort_key: "best_of f mx (sort_key k ms) acc = best_of f mx ms acc"
  by (rule best_of_mset) simp

section \<open>Quiescence against the exhaustive value\<close>

lemma cur_game_move: "cur (game_move R g m) = make_move R (cur g) m"
  by (simp add: game_move_def)

lemma quiescence_loop_max_exhaustive:
  assumes rec: "\<And>m a b w. m \<in> set ms \<Longrightarrow> a \<le> b \<Longrightarrow> f m = Some w \<Longrightarrow>
                  rec (game_move R g m) a b = Some (max a (min b w), game_move R g m)"
  shows "alpha \<le> beta \<Longrightarrow> best_of f True ms alpha = Some v \<Longrightarrow>
         quiescence_loop rec R True ms g alpha beta = Some (min beta v, g)"
  using rec
proof (induction ms arbitrary: alpha)
  case Nil
  then show ?case by (simp add: min_def)
next
  case (Cons m ms)
  from Cons.prems(2) obtain w where w: "f m = Some w"
    and rest: "best_of f True ms (max alpha w) = Some v"
    by (auto split: option.splits)
  let ?score = "max alpha (min beta w)"
  have call: "rec (game_move R g m) alpha beta = Some (?score, game_move R g m)"
    using Cons.prems(3) [of m alpha beta w] Cons.prems(1) w by simp
  have vge: "max alpha w \<le> v"
    using rest by (rule best_of_max_ge)
  show ?case
  proof (cases "beta \<le> ?score")
    case True
    with Cons.prems(1) have "beta \<le> w \<or> beta = alpha"
      by (auto simp: max_def min_def split: if_splits)
    with vge have "beta \<le> v" by auto
    with True call show ?thesis
      by (simp add: game_undo_move min_def)
  next
    case False
    then have wb: "w < beta" and ab: "alpha < beta"
      by (auto simp: max_def min_def split: if_splits)
    then have sc: "?score = max alpha w" by (simp add: min_absorb2 less_imp_le)
    have new: "(if alpha < ?score then ?score else alpha) = max alpha w"
      unfolding sc by (auto simp: max_def)
    have "quiescence_loop rec R True ms g (max alpha w) beta = Some (min beta v, g)"
    proof (rule Cons.IH)
      show "max alpha w \<le> beta" using wb ab by (simp add: less_imp_le)
      show "best_of f True ms (max alpha w) = Some v" by (rule rest)
      show "\<And>m a b w. m \<in> set ms \<Longrightarrow> a \<le> b \<Longrightarrow> f m = Some w \<Longrightarrow>
              rec (game_move R g m) a b = Some (max a (min b w), game_move R g m)"
        using Cons.prems(3) by simp
    qed
    with False call new show ?thesis
      by (simp add: game_undo_move Let_def)
  qed
qed

lemma quiescence_loop_min_exhaustive:
  assumes rec: "\<And>m a b w. m \<in> set ms \<Longrightarrow> a \<le> b \<Longrightarrow> f m = Some w \<Longrightarrow>
                  rec (game_move R g m) a b = Some (max a (min b w), game_move R g m)"
  shows "alpha \<le> beta \<Longrightarrow> best_of f False ms beta = Some v \<Longrightarrow>
         quiescence_loop rec R False ms g alpha beta = Some (max alpha v, g)"
  using rec
proof (induction ms arbitrary: beta)
  case Nil
  then show ?case by (simp add: max_def)
next
  case (Cons m ms)
  from Cons.prems(2) obtain w where w: "f m = Some w"
    and rest: "best_of f False ms (min beta w) = Some v"
    by (auto split: option.splits)
  let ?score = "max alpha (min beta w)"
  have call: "rec (game_move R g m) alpha beta = Some (?score, game_move R g m)"
    using Cons.prems(3) [of m alpha beta w] Cons.prems(1) w by simp
  have vle: "v \<le> min beta w"
    using rest by (rule best_of_min_le)
  show ?case
  proof (cases "?score \<le> alpha")
    case True
    with Cons.prems(1) have "w \<le> alpha \<or> beta = alpha"
      by (auto simp: max_def min_def split: if_splits)
    with vle have "v \<le> alpha" by auto
    with True call show ?thesis
      by (simp add: game_undo_move max_def)
  next
    case False
    then have wa: "alpha < w" and ab: "alpha < beta"
      by (auto simp: max_def min_def split: if_splits)
    then have sc: "?score = min beta w" by (simp add: max_absorb2 less_imp_le)
    have new: "(if ?score < beta then ?score else beta) = min beta w"
      unfolding sc by (auto simp: min_def)
    have "quiescence_loop rec R False ms g alpha (min beta w) = Some (max alpha v, g)"
    proof (rule Cons.IH)
      show "alpha \<le> min beta w" using wa ab by (simp add: less_imp_le)
      show "best_of f False ms (min beta w) = Some v" by (rule rest)
      show "\<And>m a b w. m \<in> set ms \<Longrightarrow> a \<le> b \<Longrightarrow> f m = Some w \<Longrightarrow>
              rec (game_move R g m) a b = Some (max a (min b w), game_move R g m)"
        using Cons.prems(3) by simp
    qed
    with False call new show ?thesis
      by (simp add: game_undo_move Let_def)
  qed
qed

lemma quiescence_exhaustive:
  "exhaustive_quiescence fuel R (cur g) mx = Some v \<Longrightarrow> alpha \<le> beta \<Longrightarrow>
   quiescence fuel R g alpha beta mx = Some (max alpha (min beta v), g)"
proof (induction fuel arbitrary: g mx v alpha beta)
  case 0
  then show ?case by simp
next
  case (Suc fuel)
  let ?f = "\<lambda>m. exhaustive_quiescence fuel R (make_move R (cur g) m) (\<not> mx)"
  let ?rec = "\<lambda>g' a b. quiescence fuel R g' a b (\<not> mx)"
  let ?sp = "evaluateBoard R (cur g)"
  have rec: "\<And>m a b w. m \<in> set (captureMoves R (cur g)) \<Longrightarrow> a \<le> b \<Longrightarrow> ?f m = Some w \<Longrightarrow>
               ?rec (game_move R g m) a b = Some (max a (min b w), game_move R g m)"
    by (rule Suc.IH) (simp_all add: cur_game_move)
  have ex: "best_of ?f mx (captureMoves R (cur g)) ?sp = Some v"
    using Suc.prems(1) by (simp add: captureMoves_def best_of_sort_key)
  show ?case
  proof (cases mx)
    case True
    have spv: "?sp \<le> v" using ex True by (auto dest: best_of_max_ge)
    show ?thesis
    proof (cases "beta \<le> ?sp")
      case True
      with spv have "beta \<le> v" by simp
      with True \<open>mx\<close> Suc.prems(2) show ?thesis by (auto simp: min_def max_def)
    next
      case False
      have a': "(if alpha < ?sp then ?sp else alpha) = max alpha ?sp"
        by (auto simp: max_def)
      have "best_of ?f True (captureMoves R (cur g)) (max alpha ?sp) = Some (max alpha v)"
        using ex True by (simp add: best_of_max_shift)
      moreover have "max alpha ?sp \<le> beta" using False Suc.prems(2) by simp
      ultimately have "quiescence_loop ?rec R True (captureMoves R (cur g)) g (max alpha ?sp) beta
          = Some (min beta (max alpha v), g)"
        using rec by (intro quiescence_loop_max_exhaustive [where f = ?f]) auto
      moreover have "min beta (max alpha v) = max alpha (min beta v)"
        using Suc.prems(2) by (auto simp: min_def max_def)
      ultimately show ?thesis
        using False \<open>mx\<close> a' by (simp add: Let_def)
    qed
  next
    case False
    have spv: "v \<le> ?sp" using ex False by (auto dest: best_of_min_le)
    show ?thesis
    proof (cases "?sp \<le> alpha")
      case True
      with spv have "v \<le> alpha" by simp
      with True \<open>\<not> mx\<close> Suc.prems(2) show ?thesis by (auto simp: min_def max_def)
    next
      case nle: False
      have b': "(if ?sp < beta then ?sp else beta) = min beta ?sp"
        by (auto simp: min_def)
      have "best_of ?f False (captureMoves R (cur g)) (min beta ?sp) = Some (min beta v)"
        using ex False by (simp add: best_of_min_shift)
      moreover have "alpha \<le> min beta ?sp" using nle Suc.prems(2) by simp
      ultimately have "quiescence_loop ?rec R False (captureMoves R (cur g)) g alpha (min beta ?sp)
          = Some (max alpha (min beta v), g)"
        using rec by (intro quiescence_loop_min_exhaustive [where f = ?f]) auto
      then show ?thesis
        using nle \<open>\<not> mx\<close> b' by (simp add: Let_def)
    qed
  qed
qed

section \<open>Minimax against the exhaustive value\<close>

lemma number_least: "NegInfinity \<le> (x::number)"
  by simp

lemma number_greatest: "(x::number) \<le> Infinity"
  by (cases x) simp_all


lemma max_loop_exhaustive:
  assumes rec: "\<And>m a b w. m \<in> set ms \<Longrightarrow> a < b \<Longrightarrow> f m = Some w \<Longrightarrow>
                  \<exists>r. rec (game_move R g m) a b = Some (r, game_move R g m) \<and>
                      max a (min b r) = max a (min b w)"
  shows "alpha < beta \<Longrightarrow> best_of f True ms acc = Some v \<Longrightarrow> best \<le> alpha \<Longrightarrow> acc \<le> alpha \<Longrightarrow>
         \<exists>r. max_loop rec R ms g alpha beta best = Some (r, g) \<and> best \<le> r \<and>
             max alpha (min beta r) = max alpha (min beta v)"
  using rec
proof (induction ms arbitrary: alpha best acc)
  case Nil
  then have "v = acc" by simp
  with Nil.prems show ?case
    by (auto simp: max_def min_def)
next
  case (Cons m ms)
  from Cons.prems(2) obtain w where w: "f m = Some w"
    and rest: "best_of f True ms (max acc w) = Some v"
    by (auto split: option.splits)
  from Cons.prems(5) [of m alpha beta w] Cons.prems(1) w
  obtain e where call: "rec (game_move R g m) alpha beta = Some (e, game_move R g m)"
    and ew: "max alpha (min beta e) = max alpha (min beta w)"
    by auto
  have vge: "max acc w \<le> v"
    using rest by (rule best_of_max_ge)
  show ?case
  proof (cases "beta \<le> max alpha e")
    case True
    with Cons.prems(1) have be: "beta \<le> e"
      by (auto simp: max_def split: if_splits)
    with ew Cons.prems(1) have "beta \<le> w"
      by (auto simp: max_def min_def split: if_splits)
    with vge have "beta \<le> v" by auto
    with be Cons.prems(1) have "max alpha (min beta (max best e)) = max alpha (min beta v)"
      by (auto simp: max_def min_def)
    with True call show ?thesis
      by (simp add: game_undo_move Let_def)
  next
    case False
    then have eb: "e < beta" and ab: "max alpha e < beta"
      by (auto simp: max_def split: if_splits)
    from ew eb Cons.prems(1) have wb: "w < beta" and aw: "max alpha w = max alpha e"
      by (auto simp: max_def min_def split: if_splits)
    have "\<exists>r. max_loop rec R ms g (max alpha e) beta (max best e) = Some (r, g) \<and>
               max best e \<le> r \<and>
               max (max alpha e) (min beta r) = max (max alpha e) (min beta v)"
    proof (rule Cons.IH [where acc = "max acc w"])
      show "max alpha e < beta" by (rule ab)
      show "best_of f True ms (max acc w) = Some v" by (rule rest)
      show "max best e \<le> max alpha e"
        using Cons.prems(3) by (auto simp: max_def)
      show "max acc w \<le> max alpha e"
        using Cons.prems(4) aw [symmetric] by (auto simp: max_def)
      show "\<And>m a b w. m \<in> set ms \<Longrightarrow> a < b \<Longrightarrow> f m = Some w \<Longrightarrow>
              \<exists>r. rec (game_move R g m) a b = Some (r, game_move R g m) \<and>
                  max a (min b r) = max a (min b w)"
        using Cons.prems(5) by simp
    qed
    then obtain r where loop: "max_loop rec R ms g (max alpha e) beta (max best e) = Some (r, g)"
      and rge: "max best e \<le> r"
      and eq: "max (max alpha e) (min beta r) = max (max alpha e) (min beta v)"
      by blast
    have "e \<le> min beta r" using eb rge by (simp add: less_imp_le)
    then have l: "max (max alpha e) (min beta r) = max alpha (min beta r)"
      by (simp add: max.assoc max_absorb2)
    have "w \<le> min beta v" using wb vge by (simp add: less_imp_le)
    then have "max (max alpha w) (min beta v) = max alpha (min beta v)"
      by (simp add: max.assoc max_absorb2)
    with aw have r: "max (max alpha e) (min beta v) = max alpha (min beta v)"
      by simp
    from eq l r have "max alpha (min beta r) = max alpha (min beta v)" by simp
    moreover have "best \<le> r" using rge by simp
    ultimately show ?thesis
      using False call loop by (simp add: game_undo_move Let_def)
  qed
qed

lemma min_loop_exhaustive:
  assumes rec: "\<And>m a b w. m \<in> set ms \<Longrightarrow> a < b \<Longrightarrow> f m = Some w \<Longrightarrow>
                  \<exists>r. rec (game_move R g m) a b = Some (r, game_move R g m) \<and>
                      max a (min b r) = max a (min b w)"
  shows "alpha < beta \<Longrightarrow> best_of f False ms acc = Some v \<Longrightarrow> beta \<le> best \<Longrightarrow> beta \<le> acc \<Longrightarrow>
         \<exists>r. min_loop rec R ms g alpha beta best = Some (r, g) \<and> r \<le> best \<and>
             max alpha (min beta r) = max alpha (min beta v)"
  using rec
proof (induction ms arbitrary: beta best acc)
  case Nil
  then have "v = acc" by simp
  with Nil.prems show ?case
    by (auto simp: max_def min_def)
next
  case (Cons m ms)
  from Cons.prems(2) obtain w where w: "f m = Some w"
    and rest: "best_of f False ms (min acc w) = Some v"
    by (auto split: option.splits)
  from Cons.prems(5) [of m alpha beta w] Cons.prems(1) w
  obtain e where call: "rec (game_move R g m) alpha beta = Some (e, game_move R g m)"
    and ew: "max alpha (min beta e) = max alpha (min beta w)"
    by auto
  have vle: "v \<le> min acc w"
    using rest by (rule best_of_min_le)
  show ?case
  proof (cases "min beta e \<le> alpha")
    case True
    with Cons.prems(1) have ea: "e \<le> alpha"
      by (auto simp: min_def split: if_splits)
    with ew Cons.prems(1) have "w \<le> alpha"
      by (auto simp: max_def min_def split: if_splits)
    with vle have "v \<le> alpha" by auto
    with ea Cons.prems(1) have "max alpha (min beta (min best e)) = max alpha (min beta v)"
      by (auto simp: max_def min_def)
    with True call show ?thesis
      by (simp add: game_undo_move Let_def)
  next
    case False
    then have ea: "alpha < e" and ab: "alpha < min beta e"
      by (auto simp: min_def split: if_splits)
    from ew ea Cons.prems(1) have wa: "alpha < w" and bw: "min beta w = min beta e"
      by (auto simp: max_def min_def split: if_splits)
    have "\<exists>r. min_loop rec R ms g alpha (min beta e) (min best e) = Some (r, g) \<and>
               r \<le> min best e \<and>
               max alpha (min (min beta e) r) = max alpha (min (min beta e) v)"
    proof (rule Cons.IH [where acc = "min acc w"])
      show "alpha < min beta e" by (rule ab)
      show "best_of f False ms (min acc w) = Some v" by (rule rest)
      show "min beta e \<le> min best e"
        using Cons.prems(3) by (auto simp: min_def)
      show "min beta e \<le> min acc w"
        using Cons.prems(4) bw [symmetric] by (auto simp: min_def)
      show "\<And>m a b w. m \<in> set ms \<Longrightarrow> a < b \<Longrightarrow> f m = Some w \<Longrightarrow>
              \<exists>r. rec (game_move R g m) a b = Some (r, game_move R g m) \<and>
                  max a (min b r) = max a (min b w)"
        using Cons.prems(5) by simp
    qed
    then obtain r where loop: "min_loop rec R ms g alpha (min beta e) (min best e) = Some (r, g)"
      and rle: "r \<le> min best e"
      and eq: "max alpha (min (min beta e) r) = max alpha (min (min beta e) v)"
      by blast
    have "r \<le> e" using rle by simp
    then have l: "min (min beta e) r = min beta r"
      by (simp add: min.assoc min_absorb2)
    have "v \<le> w" using vle by simp
    then have "min (min beta w) v = min beta v"
      by (simp add: min.assoc min_absorb2)
    with bw have r: "min (min beta e) v = min beta v"
      by simp
    from eq l r have "max alpha (min beta r) = max alpha (min beta v)" by simp
    moreover have "r \<le> best" using rle by simp
    ultimately show ?thesis
      using False call loop by (simp add: game_undo_move Let_def)
  qed
qed

lemma minimax_exhaustive:
  "exhaustive_minimax fuel rd R (cur g) d mx = Some v \<Longrightarrow> alpha < beta \<Longrightarrow>
   \<exists>r. minimax fuel rd R g d alpha beta mx = Some (r, g) \<and>
       max alpha (min beta r) = max alpha (min beta v)"
proof (induction fuel arbitrary: g d mx v alpha beta)
  case 0
  then show ?case by simp
next
  case (Suc fuel)
  show ?case
  proof (cases "d = Num 0 \<or> isGameOver R (cur g)")
    case True
    with Suc.prems have "exhaustive_quiescence fuel R (cur g) mx = Some v" by auto
    then have "quiescence fuel R g alpha beta mx = Some (max alpha (min beta v), g)"
      using Suc.prems(2) by (intro quiescence_exhaustive) (simp_all add: less_imp_le)
    moreover have "max alpha (min beta (max alpha (min beta v))) = max alpha (min beta v)"
      using Suc.prems(2) by (auto simp: max_def min_def)
    ultimately show ?thesis using True by auto
  next
    case False
    let ?f = "\<lambda>m. exhaustive_minimax fuel rd R (make_move R (cur g) m) (decrement rd d) (\<not> mx)"
    have ex: "best_of ?f mx (orderedMoves R (cur g)) (if mx then NegInfinity else Infinity) = Some v"
      using Suc.prems(1) False by (simp add: orderedMoves_def best_of_sort_key)
    have rec: "\<And>m a b w. m \<in> set (orderedMoves R (cur g)) \<Longrightarrow> a < b \<Longrightarrow> ?f m = Some w \<Longrightarrow>
               \<exists>r. minimax fuel rd R (game_move R g m) (decrement rd d) a b (\<not> mx) = Some (r, game_move R g m) \<and>
                   max a (min b r) = max a (min b w)"
      by (rule Suc.IH) (simp_all add: cur_game_move)
    show ?thesis
    proof (cases mx)
      case True
      have "\<exists>r. max_loop (\<lambda>g' a b. minimax fuel rd R g' (decrement rd d) a b False) R (orderedMoves R (cur g))
                  g alpha beta NegInfinity = Some (r, g) \<and> NegInfinity \<le> r \<and>
                max alpha (min beta r) = max alpha (min beta v)"
        using ex rec True Suc.prems(2)
        by (intro max_loop_exhaustive [where f = ?f and acc = NegInfinity]) auto
      with True False show ?thesis by (auto simp: Let_def)
    next
      case nmx: False
      have "\<exists>r. min_loop (\<lambda>g' a b. minimax fuel rd R g' (decrement rd d) a b True) R (orderedMoves R (cur g))
                  g alpha beta Infinity = Some (r, g) \<and> r \<le> Infinity \<and>
                max alpha (min beta r) = max alpha (min beta v)"
        using ex rec nmx Suc.prems(2)
        by (intro min_loop_exhaustive [where f = ?f and acc = Infinity]) (auto simp: number_greatest)
      with nmx False show ?thesis by (auto simp: Let_def)
    qed
  qed
qed

lemma minimax_full_window:
  assumes "exhaustive_minimax fuel rd R (cur g) d mx = Some v"
  shows "minimax fuel rd R g d NegInfinity Infinity mx = Some (v, g)"
proof -
  have "NegInfinity < Infinity" by (simp add: less_number_def)
  from minimax_exhaustive [OF assms this] obtain r
    where "minimax fuel rd R g d NegInfinity Infinity mx = Some (r, g)"
      and "max NegInfinity (min Infinity r) = max NegInfinity (min Infinity v)"
    by blast
  then show ?thesis
    by (simp add: max_absorb2 min_absorb2 number_least number_greatest)
qed

section \<open>The root loop\<close>

lemma root_loop_max:
  "root_loop search True ms bv bm = Some r \<Longrightarrow>
   (\<forall>m \<in> set ms. search m \<noteq> None) \<and>
   (r = bm \<and> (\<forall>j < length ms. fst (the (search (ms ! j))) \<le> bv) \<or>
    (\<exists>i < length ms. r = ms ! i \<and> bv < fst (the (search (ms ! i))) \<and>
       (\<forall>j < length ms. fst (the (search (ms ! j))) \<le> fst (the (search (ms ! i)))) \<and>
       (\<forall>j < i. fst (the (search (ms ! j))) < fst (the (search (ms ! i))))))"
proof (induction ms arbitrary: bv bm)
  case Nil
  then show ?case by simp
next
  case (Cons m ms)
  let ?val = "\<lambda>xs j. fst (the (search (xs ! j)))"
  from Cons.prems obtain x gc where s: "search m = Some (x, gc)"
    by (auto split: option.splits)
  show ?case
  proof (cases "bv < x")
    case True
    with Cons.prems s have "root_loop search True ms x m = Some r" by simp
    from Cons.IH [OF this] have all: "\<forall>m \<in> set ms. search m \<noteq> None"
      and alt: "r = m \<and> (\<forall>j < length ms. ?val ms j \<le> x) \<or>
        (\<exists>i < length ms. r = ms ! i \<and> x < ?val ms i \<and>
           (\<forall>j < length ms. ?val ms j \<le> ?val ms i) \<and> (\<forall>j < i. ?val ms j < ?val ms i))"
      by blast+
    from alt have "\<exists>i < length (m # ms). r = (m # ms) ! i \<and> bv < ?val (m # ms) i \<and>
           (\<forall>j < length (m # ms). ?val (m # ms) j \<le> ?val (m # ms) i) \<and>
           (\<forall>j < i. ?val (m # ms) j < ?val (m # ms) i)"
    proof
      assume a: "r = m \<and> (\<forall>j < length ms. ?val ms j \<le> x)"
      have "r = (m # ms) ! 0 \<and> bv < ?val (m # ms) 0 \<and>
           (\<forall>j < length (m # ms). ?val (m # ms) j \<le> ?val (m # ms) 0) \<and>
           (\<forall>j < 0. ?val (m # ms) j < ?val (m # ms) 0)"
        using a s True by (auto simp: nth_Cons split: nat.splits)
      then show ?thesis by blast
    next
      assume "\<exists>i < length ms. r = ms ! i \<and> x < ?val ms i \<and>
           (\<forall>j < length ms. ?val ms j \<le> ?val ms i) \<and> (\<forall>j < i. ?val ms j < ?val ms i)"
      then obtain i where i: "i < length ms" "r = ms ! i" "x < ?val ms i"
        "\<forall>j < length ms. ?val ms j \<le> ?val ms i" "\<forall>j < i. ?val ms j < ?val ms i"
        by blast
      have "Suc i < length (m # ms) \<and> r = (m # ms) ! Suc i \<and> bv < ?val (m # ms) (Suc i) \<and>
           (\<forall>j < length (m # ms). ?val (m # ms) j \<le> ?val (m # ms) (Suc i)) \<and>
           (\<forall>j < Suc i. ?val (m # ms) j < ?val (m # ms) (Suc i))"
        using i s True by (auto simp: nth_Cons less_imp_le split: nat.splits intro: less_trans)
      then show ?thesis by blast
    qed
    with all s show ?thesis by simp
  next
    case False
    then have xle: "x \<le> bv" by simp
    from False Cons.prems s have "root_loop search True ms bv bm = Some r" by simp
    from Cons.IH [OF this] have all: "\<forall>m \<in> set ms. search m \<noteq> None"
      and alt: "r = bm \<and> (\<forall>j < length ms. ?val ms j \<le> bv) \<or>
        (\<exists>i < length ms. r = ms ! i \<and> bv < ?val ms i \<and>
           (\<forall>j < length ms. ?val ms j \<le> ?val ms i) \<and> (\<forall>j < i. ?val ms j < ?val ms i))"
      by blast+
    from alt have "r = bm \<and> (\<forall>j < length (m # ms). ?val (m # ms) j \<le> bv) \<or>
        (\<exists>i < length (m # ms). r = (m # ms) ! i \<and> bv < ?val (m # ms) i \<and>
           (\<forall>j < length (m # ms). ?val (m # ms) j \<le> ?val (m # ms) i) \<and>
           (\<forall>j < i. ?val (m # ms) j < ?val (m # ms) i))"
    proof
      assume a: "r = bm \<and> (\<forall>j < length ms. ?val ms j \<le> bv)"
      have "r = bm \<and> (\<forall>j < length (m # ms). ?val (m # ms) j \<le> bv)"
        using a s xle by (auto simp: nth_Cons split: nat.splits)
      then show ?thesis by blast
    next
      assume "\<exists>i < length ms. r = ms ! i \<and> bv < ?val ms i \<and>
           (\<forall>j < length ms. ?val ms j \<le> ?val ms i) \<and> (\<forall>j < i. ?val ms j < ?val ms i)"
      then obtain i where i: "i < length ms" "r = ms ! i" "bv < ?val ms i"
        "\<forall>j < length ms. ?val ms j \<le> ?val ms i" "\<forall>j < i. ?val ms j < ?val ms i"
        by blast
      have "Suc i < length (m # ms) \<and> r = (m # ms) ! Suc i \<and> bv < ?val (m # ms) (Suc i) \<and>
           (\<forall>j < length (m # ms). ?val (m # ms) j \<le> ?val (m # ms) (Suc i)) \<and>
           (\<forall>j < Suc i. ?val (m # ms) j < ?val (m # ms) (Suc i))"
        using i s xle by (auto simp: nth_Cons less_imp_le split: nat.splits intro: le_less_trans)
      then show ?thesis by blast
    qed
    with all s show ?thesis by simp
  qed
qed

lemma root_loop_min:
  "root_loop search False ms bv bm = Some r \<Longrightarrow>
   (\<forall>m \<in> set ms. search m \<noteq> None) \<and>
   (r = bm \<and> (\<forall>j < length ms. bv \<le> fst (the (search (ms ! j)))) \<or>
    (\<exists>i < length ms. r = ms ! i \<and> fst (the (search (ms ! i))) < bv \<and>
       (\<forall>j < length ms. fst (the (search (ms ! i))) \<le> fst (the (search (ms ! j)))) \<and>
       (\<forall>j < i. fst (the (search (ms ! i))) < fst (the (search (ms ! j))))))"
proof (induction ms arbitrary: bv bm)
  case Nil
  then show ?case by simp
next
  case (Cons m ms)
  let ?val = "\<lambda>xs j. fst (the (search (xs ! j)))"
  from Cons.prems obtain x gc where s: "search m = Some (x, gc)"
    by (auto split: option.splits)
  show ?case
  proof (cases "x < bv")
    case True
    with Cons.prems s have "root_loop search False ms x m = Some r" by simp
    from Cons.IH [OF this] have all: "\<forall>m \<in> set ms. search m \<noteq> None"
      and alt: "r = m \<and> (\<forall>j < length ms. x \<le> ?val ms j) \<or>
        (\<exists>i < length ms. r = ms ! i \<and> ?val ms i < x \<and>
           (\<forall>j < length ms. ?val ms i \<le> ?val ms j) \<and> (\<forall>j < i. ?val ms i < ?val ms j))"
      by blast+
    from alt have "\<exists>i < length (m # ms). r = (m # ms) ! i \<and> ?val (m # ms) i < bv \<and>
           (\<forall>j < length (m # ms). ?val (m # ms) i \<le> ?val (m # ms) j) \<and>
           (\<forall>j < i. ?val (m # ms) i < ?val (m # ms) j)"
    proof
      assume a: "r = m \<and> (\<forall>j < length ms. x \<le> ?val ms j)"
      have "r = (m # ms) ! 0 \<and> ?val (m # ms) 0 < bv \<and>
           (\<forall>j < length (m # ms). ?val (m # ms) 0 \<le> ?val (m # ms) j) \<and>
           (\<forall>j < 0. ?val (m # ms) 0 < ?val (m # ms) j)"
        using a s True by (auto simp: nth_Cons split: nat.splits)
      then show ?thesis by blast
    next
      assume "\<exists>i < length ms. r = ms ! i \<and> ?val ms i < x \<and>
           (\<forall>j < length ms. ?val ms i \<le> ?val ms j) \<and> (\<forall>j < i. ?val ms i < ?val ms j)"
      then obtain i where i: "i < length ms" "r = ms ! i" "?val ms i < x"
        "\<forall>j < length ms. ?val ms i \<le> ?val ms j" "\<forall>j < i. ?val ms i < ?val ms j"
        by blast
      have "Suc i < length (m # ms) \<and> r = (m # ms) ! Suc i \<and> ?val (m # ms) (Suc i) < bv \<and>
           (\<forall>j < length (m # ms). ?val (m # ms) (Suc i) \<le> ?val (m # ms) j) \<and>
           (\<forall>j < Suc i. ?val (m # ms) (Suc i) < ?val (m # ms) j)"
        using i s True by (auto simp: nth_Cons less_imp_le split: nat.splits intro: less_trans)
      then show ?thesis by blast
    qed
    with all s show ?thesis by simp
  next
    case False
    then have xle: "bv \<le> x" by simp
    from False Cons.prems s have "root_loop search False ms bv bm = Some r" by simp
    from Cons.IH [OF this] have all: "\<forall>m \<in> set ms. search m \<noteq> None"
      and alt: "r = bm \<and> (\<forall>j < length ms. bv \<le> ?val ms j) \<or>
        (\<exists>i < length ms. r = ms ! i \<and> ?val ms i < bv \<and>
           (\<forall>j < length ms. ?val ms i \<le> ?val ms j) \<and> (\<forall>j < i. ?val ms i < ?val ms j))"
      by blast+
    from alt have "r = bm \<and> (\<forall>j < length (m # ms). bv \<le> ?val (m # ms) j) \<or>
        (\<exists>i < length (m # ms). r = (m # ms) ! i \<and> ?val (m # ms) i < bv \<and>
           (\<forall>j < length (m # ms). ?val (m # ms) i \<le> ?val (m # ms) j) \<and>
           (\<forall>j < i. ?val (m # ms) i < ?val (m # ms) j))"
    proof
      assume a: "r = bm \<and> (\<forall>j < length ms. bv \<le> ?val ms j)"
      have "r = bm \<and> (\<forall>j < length (m # ms). bv \<le> ?val (m # ms) j)"
        using a s xle by (auto simp: nth_Cons split: nat.splits)
      then show ?thesis by blast
    next
      assume "\<exists>i < length ms. r = ms ! i \<and> ?val ms i < bv \<and>
           (\<forall>j < length ms. ?val ms i \<le> ?val ms j) \<and> (\<forall>j < i. ?val ms i < ?val ms j)"
      then obtain i where i: "i < length ms" "r = ms ! i" "?val ms i < bv"
        "\<forall>j < length ms. ?val ms i \<le> ?val ms j" "\<forall>j < i. ?val ms i < ?val ms j"
        by blast
      have "Suc i < length (m # ms) \<and> r = (m # ms) ! Suc i \<and> ?val (m # ms) (Suc i) < bv \<and>
           (\<forall>j < length (m # ms). ?val (m # ms) (Suc i) \<le> ?val (m # ms) j) \<and>
           (\<forall>j < Suc i. ?val (m # ms) (Suc i) < ?val (m # ms) j)"
        using i s xle by (auto simp: nth_Cons less_imp_le split: nat.splits intro: less_le_trans)
      then show ?thesis by blast
    qed
    with all s show ?thesis by simp
  qed
qed

lemma root_first_best:
  assumes "findBestMoveForAnalysis fuel rd R game d = Some r"
    and "legal_moves R (cur game) \<noteq> []"
  shows "\<exists>i < length (legal_moves R (cur game)). \<exists>v.
           r = Some (legal_moves R (cur game) ! i) \<and>
           rootValue fuel rd R game d (legal_moves R (cur game) ! i) = Some v \<and>
           (\<forall>j < length (legal_moves R (cur game)). \<exists>w.
              rootValue fuel rd R game d (legal_moves R (cur game) ! j) = Some w \<and>
              \<not> better (turn R (cur game)) w v) \<and>
           (\<forall>j < i. \<exists>w.
              rootValue fuel rd R game d (legal_moves R (cur game) ! j) = Some w \<and>
              better (turn R (cur game)) v w)"
proof -
  let ?ms = "legal_moves R (cur game)"
  let ?mx = "turn R (cur game) = White"
  let ?search = "\<lambda>m. minimax fuel rd R (game_move R (game_copy R game) m) (decrement rd d)
                        NegInfinity Infinity (\<not> ?mx)"
  let ?val = "\<lambda>j. fst (the (?search (?ms ! j)))"
  from assms(2) obtain m0 rest where ms: "?ms = m0 # rest"
    by (cases ?ms) auto
  then have m0: "m0 = ?ms ! 0" and len: "0 < length ?ms" by simp_all
  from assms(1) ms obtain r' where r: "r = Some r'"
    and loop: "root_loop ?search ?mx ?ms (if ?mx then NegInfinity else Infinity) m0 = Some r'"
    by (auto simp: findBestMoveForAnalysis_def Let_def)
  have rv: "\<And>j. j < length ?ms \<Longrightarrow> ?search (?ms ! j) \<noteq> None \<Longrightarrow>
               rootValue fuel rd R game d (?ms ! j) = Some (?val j)"
    by (auto simp: rootValue_def)
  show ?thesis
  proof (cases ?mx)
    case True
    with loop have l: "root_loop ?search True ?ms NegInfinity m0 = Some r'" by simp
    from root_loop_max [OF l] have all: "\<forall>m \<in> set ?ms. ?search m \<noteq> None"
      and alt: "r' = m0 \<and> (\<forall>j < length ?ms. ?val j \<le> NegInfinity) \<or>
        (\<exists>i < length ?ms. r' = ?ms ! i \<and> NegInfinity < ?val i \<and>
           (\<forall>j < length ?ms. ?val j \<le> ?val i) \<and> (\<forall>j < i. ?val j < ?val i))"
      by blast+
    from all have some: "\<And>j. j < length ?ms \<Longrightarrow> rootValue fuel rd R game d (?ms ! j) = Some (?val j)"
      by (intro rv) auto
    from alt obtain i where i: "i < length ?ms" "r' = ?ms ! i"
      "\<forall>j < length ?ms. ?val j \<le> ?val i" "\<forall>j < i. ?val j < ?val i"
    proof
      assume a: "r' = m0 \<and> (\<forall>j < length ?ms. ?val j \<le> NegInfinity)"
      then have "\<forall>j < length ?ms. ?val j = NegInfinity"
        by (auto intro: antisym number_least)
      then have "\<forall>j < length ?ms. ?val j \<le> ?val 0"
        using len by simp
      with a m0 len show ?thesis by (intro that [of 0]) auto
    next
      assume "\<exists>i < length ?ms. r' = ?ms ! i \<and> NegInfinity < ?val i \<and>
           (\<forall>j < length ?ms. ?val j \<le> ?val i) \<and> (\<forall>j < i. ?val j < ?val i)"
      then show ?thesis using that by blast
    qed
    have "r = Some (?ms ! i) \<and> rootValue fuel rd R game d (?ms ! i) = Some (?val i) \<and>
          (\<forall>j < length ?ms. \<exists>w. rootValue fuel rd R game d (?ms ! j) = Some w \<and>
              \<not> better (turn R (cur game)) w (?val i)) \<and>
          (\<forall>j < i. \<exists>w. rootValue fuel rd R game d (?ms ! j) = Some w \<and>
              better (turn R (cur game)) (?val i) w)"
      using i r some True by (auto simp: better_def not_less)
    with i(1) show ?thesis by blast
  next
    case False
    with loop have l: "root_loop ?search False ?ms Infinity m0 = Some r'" by simp
    from root_loop_min [OF l] have all: "\<forall>m \<in> set ?ms. ?search m \<noteq> None"
      and alt: "r' = m0 \<and> (\<forall>j < length ?ms. Infinity \<le> ?val j) \<or>
        (\<exists>i < length ?ms. r' = ?ms ! i \<and> ?val i < Infinity \<and>
           (\<forall>j < length ?ms. ?val i \<le> ?val j) \<and> (\<forall>j < i. ?val i < ?val j))"
      by blast+
    from all have some: "\<And>j. j < length ?ms \<Longrightarrow> rootValue fuel rd R game d (?ms ! j) = Some (?val j)"
      by (intro rv) auto
    from alt obtain i where i: "i < length ?ms" "r' = ?ms ! i"
      "\<forall>j < length ?ms. ?val i \<le> ?val j" "\<forall>j < i. ?val i < ?val j"
    proof
      assume a: "r' = m0 \<and> (\<forall>j < length ?ms. Infinity \<le> ?val j)"
      then have "\<forall>j < length ?ms. ?val j = Infinity"
        by (auto intro: antisym number_greatest)
      then have "\<forall>j < length ?ms. ?val 0 \<le> ?val j"
        using len by simp
      with a m0 len show ?thesis by (intro that [of 0]) auto
    next
      assume "\<exists>i < length ?ms. r' = ?ms ! i \<and> ?val i < Infinity \<and>
           (\<forall>j < length ?ms. ?val i \<le> ?val j) \<and> (\<forall>j < i. ?val i < ?val j)"
      then show ?thesis using that by blast
    qed
    have "r = Some (?ms ! i) \<and> rootValue fuel rd R game d (?ms ! i) = Some (?val i) \<and>
          (\<forall>j < length ?ms. \<exists>w. rootValue fuel rd R game d (?ms ! j) = Some w \<and>
              \<not> better (turn R (cur game)) w (?val i)) \<and>
          (\<forall>j < i. \<exists>w. rootValue fuel rd R game d (?ms ! j) = Some w \<and>
              better (turn R (cur game)) (?val i) w)"
      using i r some False by (auto simp: better_def not_less)
    with i(1) show ?thesis by blast
  qed
qed

section \<open>The random choice\<close>

lemma other_san_exists:
  assumes "distinct (map m_san ms)" and "2 \<le> length ms"
  shows "filter (\<lambda>m. m_san m \<noteq> s) ms \<noteq> []"
proof -
  from assms(2) obtain a b rest where ms: "ms = a # b # rest"
    by (cases ms; cases "tl ms") auto
  with assms(1) have "m_san a \<noteq> m_san b" by simp
  then have "m_san a \<noteq> s \<or> m_san b \<noteq> s" by auto
  with ms show ?thesis by (auto simp: filter_empty_conv)
qed

section \<open>Termination\<close>




lemma root_loop_returns:
  assumes "\<And>m. m \<in> set ms \<Longrightarrow> search m \<noteq> None"
  shows "\<exists>r. root_loop search mx ms bv bm = Some r"
  using assms
proof (induction ms arbitrary: bv bm)
  case Nil
  then show ?case by simp
next
  case (Cons m ms)
  from Cons.prems [of m] obtain v gc where "search m = Some (v, gc)" by auto
  moreover have "\<And>a b. \<exists>r. root_loop search mx ms a b = Some r"
    by (rule Cons.IH) (simp add: Cons.prems)
  then have "\<forall>a b. \<exists>r. root_loop search mx ms a b = Some r" by blast
  ultimately show ?case by auto
qed

lemma findBestMove_returns_if:
  assumes "\<forall>m \<in> set (legal_moves R (cur game)). rootValue fuel rd R game d m \<noteq> None"
  shows "\<exists>r. findBestMoveForAnalysis fuel rd R game d = Some r"
proof (cases "legal_moves R (cur game)")
  case Nil
  then show ?thesis by (simp add: findBestMoveForAnalysis_def)
next
  case (Cons m0 rest)
  let ?search = "\<lambda>m. minimax fuel rd R (game_move R (game_copy R game) m) (decrement rd d)
                        NegInfinity Infinity (\<not> turn R (cur game) = White)"
  have "\<And>m. m \<in> set (legal_moves R (cur game)) \<Longrightarrow> ?search m \<noteq> None"
    using assms by (auto simp: rootValue_def)
  then have "\<And>bv bm. \<exists>r. root_loop ?search (turn R (cur game) = White)
               (legal_moves R (cur game)) bv bm = Some r"
    by (intro root_loop_returns)
  then show ?thesis
    using Cons by (simp add: findBestMoveForAnalysis_def Let_def del: root_loop.simps)
qed







section \<open>Quiescence looks at captures only\<close>

lemma quiescence_loop_rules:
  "make_move R' = make_move R \<Longrightarrow>
   quiescence_loop rec R' mx ms g alpha beta = quiescence_loop rec R mx ms g alpha beta"
  by (induction ms arbitrary: g alpha beta)
     (auto simp: game_move_def Let_def split: option.splits)

lemma quiescence_only_captures:
  "quiescence fuel (R\<lparr>legal_moves := \<lambda>q. filter isCapture (legal_moves R q)\<rparr>) g alpha beta mx
     = quiescence fuel R g alpha beta mx"
proof (induction fuel arbitrary: g alpha beta mx)
  case 0
  then show ?case by simp
next
  case (Suc fuel)
  let ?R = "R\<lparr>legal_moves := \<lambda>q. filter isCapture (legal_moves R q)\<rparr>"
  have ev: "evaluateBoard ?R (cur g) = evaluateBoard R (cur g)"
    by (simp add: evaluateBoard_def)
  have cm: "captureMoves ?R (cur g) = captureMoves R (cur g)"
    by (simp add: captureMoves_def)
  have rec: "(\<lambda>g' a b. quiescence fuel ?R g' a b (\<not> mx)) = (\<lambda>g' a b. quiescence fuel R g' a b (\<not> mx))"
    by (simp add: Suc.IH)
  have loop: "\<And>rec ms a b. quiescence_loop rec ?R mx ms g a b = quiescence_loop rec R mx ms g a b"
    by (rule quiescence_loop_rules) simp
  show ?case
    by (simp only: quiescence.simps ev cm rec loop)
qed

section \<open>The evaluation under the colour mirror\<close>

text \<open>
  For the piece types whose table is reversed for Black, the value of a square of the
  mirrored board is the negated value of the square it comes from. So on a board
  without knights and queens the evaluation of the mirror is the negated evaluation.
\<close>

lemma sum_list_enumerate:
  "sum_list (map f (enumerate 0 xs)) = (\<Sum>i = 0..<length xs. f (i, xs ! i))"
proof -
  have "sum_list (map f (enumerate 0 xs))
          = (\<Sum>i = 0..<length (map f (enumerate 0 xs)). map f (enumerate 0 xs) ! i)"
    by (rule sum_list_sum_nth)
  also have "\<dots> = (\<Sum>i = 0..<length xs. f (i, xs ! i))"
    by (rule sum.cong) (simp_all add: nth_enumerate_eq)
  finally show ?thesis .
qed

lemma totalEvaluation_sum:
  assumes "wf_board b"
  shows "totalEvaluation b = (\<Sum>r = 0..<8. \<Sum>c = 0..<8. squareValue r c (b ! r ! c))"
proof -
  from assms have len: "length b = 8" and rows: "\<And>r. r < 8 \<Longrightarrow> length (b ! r) = 8"
    by (auto simp: wf_board_def list_all_length)
  have "totalEvaluation b
          = (\<Sum>r = 0..<length b. \<Sum>c = 0..<length (b ! r). squareValue r c (b ! r ! c))"
    by (simp add: totalEvaluation_def sum_list_enumerate)
  also have "\<dots> = (\<Sum>r = 0..<8. \<Sum>c = 0..<8. squareValue r c (b ! r ! c))"
    unfolding len by (rule sum.cong) (simp_all add: rows)
  finally show ?thesis .
qed

lemma table_rev:
  assumes "length t = 8" and "r < 8"
  shows "rev t ! r = t ! (7 - r)" and "rev t ! (7 - r) = t ! r"
  using assms by (simp_all add: rev_nth)

lemma squareValue_mirror:
  assumes "r < 8"
    and "case sq of None \<Rightarrow> True | Some pc \<Rightarrow> p_type pc \<noteq> Knight \<and> p_type pc \<noteq> Queen"
  shows "squareValue r c (map_option swap_color sq) = - squareValue (7 - r) c sq"
proof (cases sq)
  case None
  then show ?thesis by (simp add: squareValue_def)
next
  case (Some pc)
  have l: "length pawnEvalWhite = 8" "length bishopEvalWhite = 8" "length rookEvalWhite = 8"
    "length kingEvalWhite = 8"
    by (simp_all add: pawnEvalWhite_def bishopEvalWhite_def rookEvalWhite_def kingEvalWhite_def)
  note t = table_rev [OF l(1) assms(1)] table_rev [OF l(2) assms(1)]
    table_rev [OF l(3) assms(1)] table_rev [OF l(4) assms(1)]
  from Some assms(2) show ?thesis
    by (cases "p_type pc"; cases "p_color pc")
       (simp_all add: squareValue_def getPiecePositionalValue_def swap_color_def Let_def
          pawnEvalBlack_def bishopEvalBlack_def rookEvalBlack_def kingEvalBlack_def t)
qed

lemma mirror_board_nth:
  assumes "wf_board b" and "r < 8" and "c < 8"
  shows "mirror_board b ! r ! c = map_option swap_color (b ! (7 - r) ! c)"
proof -
  from assms have len: "length b = 8" and rows: "\<And>r. r < 8 \<Longrightarrow> length (b ! r) = 8"
    by (auto simp: wf_board_def list_all_length)
  have "7 - r < 8" by simp
  then have "c < length (b ! (7 - r))" using rows assms(3) by simp
  then show ?thesis
    using assms(2) len
    by (simp add: mirror_board_def rev_nth)
qed

lemma wf_mirror_board: "wf_board b \<Longrightarrow> wf_board (mirror_board b)"
  by (auto simp: wf_board_def mirror_board_def list_all_iff)

lemma totalEvaluation_mirror:
  assumes "wf_board b" and "mirrored_types b"
  shows "totalEvaluation (mirror_board b) = - totalEvaluation b"
proof -
  from assms have len: "length b = 8" and rows: "\<And>r. r < 8 \<Longrightarrow> length (b ! r) = 8"
    by (auto simp: wf_board_def list_all_length)
  have ok: "\<And>r c. r < 8 \<Longrightarrow> c < 8 \<Longrightarrow>
              (case b ! r ! c of None \<Rightarrow> True
               | Some pc \<Rightarrow> p_type pc \<noteq> Knight \<and> p_type pc \<noteq> Queen)"
    using assms(2) len rows by (simp add: mirrored_types_def list_all_length)
  let ?g = "\<lambda>r. \<Sum>c = 0..<8. squareValue r c (b ! r ! c)"
  have "totalEvaluation (mirror_board b)
          = (\<Sum>r = 0..<8. \<Sum>c = 0..<8. squareValue r c (mirror_board b ! r ! c))"
    by (rule totalEvaluation_sum) (rule wf_mirror_board [OF assms(1)])
  also have "\<dots> = (\<Sum>r = 0..<8. \<Sum>c = 0..<8. - squareValue (7 - r) c (b ! (7 - r) ! c))"
  proof (intro sum.cong refl)
    fix r c :: nat
    assume "r \<in> {0..<8}" and "c \<in> {0..<8}"
    then have r: "r < 8" and c: "c < 8" by simp_all
    have "7 - r < 8" by simp
    from squareValue_mirror [OF r ok [OF this c]] mirror_board_nth [OF assms(1) r c]
    show "squareValue r c (mirror_board b ! r ! c) = - squareValue (7 - r) c (b ! (7 - r) ! c)"
      by simp
  qed
  also have "\<dots> = - (\<Sum>r = 0..<8. ?g (7 - r))"
    by (simp add: sum_negf)
  also have "(\<Sum>r = 0..<8. ?g (7 - r)) = (\<Sum>r = 0..<8. ?g r)"
    using sum.atLeastLessThan_rev [of ?g 0 8] by simp
  also have "\<dots> = totalEvaluation b"
    by (rule totalEvaluation_sum [OF assms(1), symmetric])
  finally show ?thesis .
qed

lemma evaluateBoard_mirror:
  assumes "wf_board (board R p)" and "mirrored_types (board R p)"
    and "board R p' = mirror_board (board R p)"
    and "isCheckmate R p' = isCheckmate R p" and "isDraw R p' = isDraw R p"
    and "turn R p' \<noteq> turn R p"
  shows "evaluateBoard R p' = negate (evaluateBoard R p)"
proof -
  from assms(6) have "(turn R p' = Black) = (turn R p \<noteq> Black)"
    by (cases "turn R p'"; cases "turn R p") simp_all
  with totalEvaluation_mirror [OF assms(1,2)] assms(3,4,5) show ?thesis
    by (simp add: evaluateBoard_def)
qed

section \<open>The claims\<close>

text \<open>
  Claim C1. The evaluation of a position should be the negation of the evaluation of
  its colour mirror. The tables are written from White's side; for pawn, bishop, rook and
  king the engine reverses the rows for Black, for knight and queen it uses the same
  table for both colours, and these two tables differ from their reversals. On boards
  without knights and queens the property holds (\<open>evaluateBoard_mirror\<close>); at the
  position with the white knight on d2 and its mirror with the black knight on d7 the
  two evaluations are 430 and -425, which are not opposite.
\<close>

theorem knight_table_not_mirrored:
  "t_board pos_knight_mirrored = mirror_board (t_board pos_knight) \<and>
   turn tree_rules pos_knight = White \<and> turn tree_rules pos_knight_mirrored = Black \<and>
   evaluateBoard tree_rules pos_knight = Num 430 \<and>
   evaluateBoard tree_rules pos_knight_mirrored = Num (- 425) \<and>
   evaluateBoard tree_rules pos_knight \<noteq> negate (evaluateBoard tree_rules pos_knight_mirrored) \<and>
   knightEval \<noteq> rev knightEval \<and> queenEval \<noteq> rev queenEval \<and>
   pawnEvalBlack = rev pawnEvalWhite \<and> bishopEvalBlack = rev bishopEvalWhite \<and>
   rookEvalBlack = rev rookEvalWhite \<and> kingEvalBlack = rev kingEvalWhite"
  by code_simp

text \<open>
  Claim C2. With the window \<open>(-Infinity, Infinity)\<close> \<open>minimax\<close> returns the value of the
  exhaustive search of the same position, depth and player, whenever the exhaustive
  search returns within the same nesting bound. The root driver calls \<open>minimax\<close> with
  this window for every root move, so the value it holds for a root move, the selected
  one included, is the exhaustive value. This holds at every depth, in particular up to
  3; the exhaustive search visits the moves in generation order and \<open>minimax\<close> in the
  order of its heuristic.
\<close>

theorem pruning_preserves_value:
  "(exhaustive_minimax fuel rd R (cur g) d mx = Some v \<longrightarrow>
      minimax fuel rd R g d NegInfinity Infinity mx = Some (v, g)) \<and>
   (exhaustive_minimax fuel rd R (make_move R (reload R (cur game)) m) (decrement rd d)
      (turn R (cur game) \<noteq> White) = Some v \<longrightarrow>
      rootValue fuel rd R game d m = Some v)"
proof (intro conjI impI)
  assume "exhaustive_minimax fuel rd R (cur g) d mx = Some v"
  then show "minimax fuel rd R g d NegInfinity Infinity mx = Some (v, g)"
    by (rule minimax_full_window)
next
  let ?g = "game_move R (game_copy R game) m"
  assume "exhaustive_minimax fuel rd R (make_move R (reload R (cur game)) m) (decrement rd d)
            (turn R (cur game) \<noteq> White) = Some v"
  then have "exhaustive_minimax fuel rd R (cur ?g) (decrement rd d) (turn R (cur game) \<noteq> White) = Some v"
    by (simp add: cur_game_move game_copy_def)
  then have "minimax fuel rd R ?g (decrement rd d) NegInfinity Infinity (turn R (cur game) \<noteq> White)
               = Some (v, ?g)"
    by (rule minimax_full_window)
  then show "rootValue fuel rd R game d m = Some v"
    by (simp add: rootValue_def)
qed

text \<open>
  The rook ending at depth 2: the reply \<open>Kf8\<close> to the capture is cut off in quiescence,
  the value is that of the exhaustive search, and so is the value of the selected root
  move \<open>Kf1\<close>.
\<close>

theorem pruning_preserves_value_witness:
  "exhaustive_minimax 5 (\<lambda>x. x) tree_rules (cur (new_game pos_root)) (Num 2) True = Some (Num 15) \<and>
   minimax 5 (\<lambda>x. x) tree_rules (new_game pos_root) (Num 2) NegInfinity Infinity True
     = Some (Num 15, new_game pos_root) \<and>
   findBestMoveForAnalysis 5 (\<lambda>x. x) tree_rules (new_game pos_root) (Num 2) = Some (Some (quiet ''Kf1'' King)) \<and>
   exhaustive_minimax 5 (\<lambda>x. x) tree_rules
     (make_move tree_rules (reload tree_rules (cur (new_game pos_root))) (quiet ''Kf1'' King))
     (decrement (\<lambda>x. x) (Num 2)) (turn tree_rules (cur (new_game pos_root)) \<noteq> White)
     = Some (Num 15) \<and>
   rootValue 5 (\<lambda>x. x) tree_rules (new_game pos_root) (Num 2) (quiet ''Kf1'' King) = Some (Num 15)"
proof -
  have e: "exhaustive_minimax 5 (\<lambda>x. x) tree_rules (cur (new_game pos_root)) (Num 2) True = Some (Num 15)"
    by code_simp
  have f: "findBestMoveForAnalysis 5 (\<lambda>x. x) tree_rules (new_game pos_root) (Num 2)
             = Some (Some (quiet ''Kf1'' King))"
    by code_simp
  have r: "exhaustive_minimax 5 (\<lambda>x. x) tree_rules
     (make_move tree_rules (reload tree_rules (cur (new_game pos_root))) (quiet ''Kf1'' King))
     (decrement (\<lambda>x. x) (Num 2)) (turn tree_rules (cur (new_game pos_root)) \<noteq> White)
     = Some (Num 15)"
    by code_simp
  from pruning_preserves_value [where fuel = 5 and rd = "\<lambda>x. x" and R = tree_rules
      and g = "new_game pos_root" and d = "Num 2" and mx = True and v = "Num 15"
      and game = "new_game pos_root" and m = "quiet ''Kf1'' King"] e f r
  show ?thesis
    by blast
qed

text \<open>
  Claim C3. Whenever \<open>quiescence\<close> or \<open>minimax\<close> returns, the \<open>Chess\<close> object is what
  it was before the call: the same current position and the same undo stack, hence the
  same legal moves, the same side to move and the same evaluation. Every \<open>game.move\<close>
  of the two loops is followed by its \<open>game.undo\<close> before the cutoff test.
\<close>

theorem search_restores_position:
  assumes "quiescence fuel R g alpha beta mx = Some (v, g') \<or>
           minimax fuel rd R g d alpha beta mx = Some (v, g')"
  shows "g' = g \<and> legal_moves R (cur g') = legal_moves R (cur g) \<and>
         turn R (cur g') = turn R (cur g) \<and>
         evaluateBoard R (cur g') = evaluateBoard R (cur g)"
proof -
  from assms have "g' = g"
    by (auto dest: quiescence_frame minimax_frame)
  then show ?thesis by simp
qed

text \<open>
  The rook ending searched two plies deep, and the quiescence search after the capture
  on d7, with the root position on the undo stack: both return the object they were
  given.
\<close>

theorem search_restores_position_witness:
  "minimax 5 (\<lambda>x. x) tree_rules (new_game pos_root) (Num 2) NegInfinity Infinity True
     = Some (Num 15, new_game pos_root) \<and>
   quiescence 5 tree_rules (game_move tree_rules (new_game pos_root) (capture ''Rxd7'' Rook Pawn))
     NegInfinity Infinity False
     = Some (Num (- 390),
             game_move tree_rules (new_game pos_root) (capture ''Rxd7'' Rook Pawn)) \<and>
   cur (game_move tree_rules (new_game pos_root) (capture ''Rxd7'' Rook Pawn)) = pos_taken \<and>
   hist (game_move tree_rules (new_game pos_root) (capture ''Rxd7'' Rook Pawn)) = [pos_root]"
proof -
  let ?g = "game_move tree_rules (new_game pos_root) (capture ''Rxd7'' Rook Pawn)"
  have m: "minimax 5 (\<lambda>x. x) tree_rules (new_game pos_root) (Num 2) NegInfinity Infinity True
     = Some (Num 15, new_game pos_root)"
    by code_simp
  have q: "quiescence 5 tree_rules ?g NegInfinity Infinity False = Some (Num (- 390), ?g)"
    by code_simp
  have c: "cur ?g = pos_taken" and h: "hist ?g = [pos_root]"
    by code_simp+
  from search_restores_position [OF disjI2, OF m] search_restores_position [OF disjI1, OF q]
    m q c h
  show ?thesis
    by blast
qed

text \<open>
  Claim C4. In a checkmate position \<open>evaluateBoard\<close> is \<open>-Infinity\<close> when White is to move
  and \<open>Infinity\<close> when Black is, whatever the board holds and whatever \<open>isDraw\<close> reports:
  the test comes first.
\<close>

theorem checkmate_sentinel:
  assumes "isCheckmate R p"
  shows "evaluateBoard R p = (if turn R p = White then NegInfinity else Infinity)"
  using assms by (cases "turn R p") (simp_all add: evaluateBoard_def)

text \<open>The two back-rank mates.\<close>

theorem checkmate_sentinel_witness:
  "isCheckmate tree_rules pos_mate \<and> turn tree_rules pos_mate = Black \<and>
   evaluateBoard tree_rules pos_mate = Infinity \<and>
   isCheckmate tree_rules pos_mated_white \<and> turn tree_rules pos_mated_white = White \<and>
   evaluateBoard tree_rules pos_mated_white = NegInfinity"
proof -
  have b: "isCheckmate tree_rules pos_mate"
    and w: "isCheckmate tree_rules pos_mated_white"
    by (simp_all add: tree_rules_def pos_mate_def pos_mated_white_def)
  have tb: "turn tree_rules pos_mate = Black" and tw: "turn tree_rules pos_mated_white = White"
    by (simp_all add: tree_rules_def pos_mate_def pos_mated_white_def)
  from checkmate_sentinel [OF b] checkmate_sentinel [OF w] b w tb tw show ?thesis
    by simp
qed

text \<open>
  Claim C5. \<open>getEvaluation\<close> is \<open>evaluateBoard / 100\<close> clamped to \<open>[-10, 10]\<close>: the result
  is never outside these bounds, for any rounding of the quotient, and the two checkmate
  values become exactly \<open>-10\<close> and \<open>10\<close>.
\<close>

theorem getEvaluation_clamped:
  "getEvaluation rd R p = max (Num (-10)) (min (Num 10) (divide_by rd (evaluateBoard R p) 100)) \<and>
   Num (-10) \<le> getEvaluation rd R p \<and> getEvaluation rd R p \<le> Num 10 \<and>
   (isCheckmate R p \<longrightarrow>
      getEvaluation rd R p = (if turn R p = White then Num (-10) else Num 10))"
proof -
  have "isCheckmate R p \<Longrightarrow> getEvaluation rd R p = (if turn R p = White then Num (-10) else Num 10)"
    by (cases "turn R p") (simp_all add: getEvaluation_def evaluateBoard_def max_def min_def)
  then show ?thesis
    by (auto simp: getEvaluation_def Let_def)
qed

text \<open>The two mates, and the rook ending at 35 centipawns.\<close>

theorem getEvaluation_clamped_witness:
  "isCheckmate tree_rules pos_mate \<and> getEvaluation (\<lambda>x. x) tree_rules pos_mate = Num 10 \<and>
   isCheckmate tree_rules pos_mated_white \<and>
   getEvaluation (\<lambda>x. x) tree_rules pos_mated_white = Num (-10) \<and>
   getEvaluation (\<lambda>x. x) tree_rules pos_root = Num (35 / 100)"
proof -
  have b: "isCheckmate tree_rules pos_mate"
    and w: "isCheckmate tree_rules pos_mated_white"
    by (simp_all add: tree_rules_def pos_mate_def pos_mated_white_def)
  have tb: "turn tree_rules pos_mate = Black" and tw: "turn tree_rules pos_mated_white = White"
    by (simp_all add: tree_rules_def pos_mate_def pos_mated_white_def)
  have r: "getEvaluation (\<lambda>x. x) tree_rules pos_root = Num (35 / 100)"
    by code_simp
  from getEvaluation_clamped [of "\<lambda>x. x" tree_rules pos_mate]
  have "isCheckmate tree_rules pos_mate \<longrightarrow> getEvaluation (\<lambda>x. x) tree_rules pos_mate
          = (if turn tree_rules pos_mate = White then Num (-10) else Num 10)"
    by blast
  with b tb have m: "getEvaluation (\<lambda>x. x) tree_rules pos_mate = Num 10"
    by simp
  from getEvaluation_clamped [of "\<lambda>x. x" tree_rules pos_mated_white]
  have "isCheckmate tree_rules pos_mated_white \<longrightarrow>
        getEvaluation (\<lambda>x. x) tree_rules pos_mated_white
          = (if turn tree_rules pos_mated_white = White then Num (-10) else Num 10)"
    by blast
  with w tw have n: "getEvaluation (\<lambda>x. x) tree_rules pos_mated_white = Num (-10)"
    by simp
  from b w m n r show ?thesis
    by blast
qed

text \<open>
  Claim C6. When the position has a legal move and the search of every root move
  returns, the root driver returns the first move, in generation order, whose value no
  other root move strictly improves on for the side to move: no root move is strictly
  better, and every earlier root move is strictly worse. A move replaces the current
  best only when its value is strictly better, so among moves of equal value the first
  one stays.
\<close>

theorem root_keeps_first_best:
  assumes "legal_moves R (cur game) \<noteq> []"
    and "\<forall>m \<in> set (legal_moves R (cur game)). rootValue fuel rd R game d m \<noteq> None"
  shows "\<exists>i < length (legal_moves R (cur game)). \<exists>v.
           findBestMoveForAnalysis fuel rd R game d = Some (Some (legal_moves R (cur game) ! i)) \<and>
           rootValue fuel rd R game d (legal_moves R (cur game) ! i) = Some v \<and>
           (\<forall>j < length (legal_moves R (cur game)). \<exists>w.
              rootValue fuel rd R game d (legal_moves R (cur game) ! j) = Some w \<and>
              \<not> better (turn R (cur game)) w v) \<and>
           (\<forall>j < i. \<exists>w.
              rootValue fuel rd R game d (legal_moves R (cur game) ! j) = Some w \<and>
              better (turn R (cur game)) v w)"
proof -
  from findBestMove_returns_if [OF assms(2)] obtain r
    where r: "findBestMoveForAnalysis fuel rd R game d = Some r"
    by blast
  from root_first_best [OF r assms(1)] r show ?thesis
    by auto
qed

text \<open>
  Two rook moves of equal value: the first is returned. After the capture on d7, Black
  to move: the second move, the recapture, is strictly better than the first.
\<close>

theorem root_keeps_first_best_witness:
  "legal_moves tree_rules (cur (new_game pos_two_rook_moves)) \<noteq> [] \<and>
   list_all (\<lambda>m. rootValue 5 (\<lambda>x. x) tree_rules (new_game pos_two_rook_moves) (Num 1) m \<noteq> None)
     (legal_moves tree_rules (cur (new_game pos_two_rook_moves))) \<and>
   findBestMoveForAnalysis 5 (\<lambda>x. x) tree_rules (new_game pos_two_rook_moves) (Num 1)
     = Some (Some (quiet ''Rc1'' Rook)) \<and>
   rootValue 5 (\<lambda>x. x) tree_rules (new_game pos_two_rook_moves) (Num 1) (quiet ''Rc1'' Rook) = Some (Num 30) \<and>
   rootValue 5 (\<lambda>x. x) tree_rules (new_game pos_two_rook_moves) (Num 1) (quiet ''Rb1'' Rook) = Some (Num 30) \<and>
   (\<exists>i < length (legal_moves tree_rules (cur (new_game pos_taken))). \<exists>v.
      Some (Some (capture ''Rxd7'' Rook Rook))
        = Some (Some (legal_moves tree_rules (cur (new_game pos_taken)) ! i)) \<and>
      rootValue 5 (\<lambda>x. x) tree_rules (new_game pos_taken) (Num 1)
        (legal_moves tree_rules (cur (new_game pos_taken)) ! i) = Some v \<and>
      (\<forall>j < i. \<exists>w.
         rootValue 5 (\<lambda>x. x) tree_rules (new_game pos_taken) (Num 1)
           (legal_moves tree_rules (cur (new_game pos_taken)) ! j) = Some w \<and>
         better (turn tree_rules (cur (new_game pos_taken))) v w))"
proof -
  have n: "legal_moves tree_rules (cur (new_game pos_two_rook_moves)) \<noteq> []"
    by code_simp
  have a: "\<forall>m \<in> set (legal_moves tree_rules (cur (new_game pos_two_rook_moves))).
             rootValue 5 (\<lambda>x. x) tree_rules (new_game pos_two_rook_moves) (Num 1) m \<noteq> None"
    by code_simp
  then have a': "list_all (\<lambda>m. rootValue 5 (\<lambda>x. x) tree_rules (new_game pos_two_rook_moves) (Num 1) m \<noteq> None)
     (legal_moves tree_rules (cur (new_game pos_two_rook_moves)))"
    by (simp add: list_all_iff)
  have f: "findBestMoveForAnalysis 5 (\<lambda>x. x) tree_rules (new_game pos_two_rook_moves) (Num 1)
     = Some (Some (quiet ''Rc1'' Rook))"
    by code_simp
  have c: "rootValue 5 (\<lambda>x. x) tree_rules (new_game pos_two_rook_moves) (Num 1) (quiet ''Rc1'' Rook)
     = Some (Num 30)"
    by code_simp
  have b: "rootValue 5 (\<lambda>x. x) tree_rules (new_game pos_two_rook_moves) (Num 1) (quiet ''Rb1'' Rook)
     = Some (Num 30)"
    by code_simp
  have n': "legal_moves tree_rules (cur (new_game pos_taken)) \<noteq> []"
    by code_simp
  have t: "\<forall>m \<in> set (legal_moves tree_rules (cur (new_game pos_taken))).
             rootValue 5 (\<lambda>x. x) tree_rules (new_game pos_taken) (Num 1) m \<noteq> None"
    by code_simp
  have f': "findBestMoveForAnalysis 5 (\<lambda>x. x) tree_rules (new_game pos_taken) (Num 1)
     = Some (Some (capture ''Rxd7'' Rook Rook))"
    by code_simp
  from root_keeps_first_best [OF n' t] f'
  have "\<exists>i < length (legal_moves tree_rules (cur (new_game pos_taken))). \<exists>v.
      Some (Some (capture ''Rxd7'' Rook Rook))
        = Some (Some (legal_moves tree_rules (cur (new_game pos_taken)) ! i)) \<and>
      rootValue 5 (\<lambda>x. x) tree_rules (new_game pos_taken) (Num 1)
        (legal_moves tree_rules (cur (new_game pos_taken)) ! i) = Some v \<and>
      (\<forall>j < i. \<exists>w.
         rootValue 5 (\<lambda>x. x) tree_rules (new_game pos_taken) (Num 1)
           (legal_moves tree_rules (cur (new_game pos_taken)) ! j) = Some w \<and>
         better (turn tree_rules (cur (new_game pos_taken))) v w)"
    by auto
  with root_keeps_first_best [OF n a] n a' f c b
  show ?thesis
    by blast
qed

text \<open>
  Claim C7. Let the position have at least two legal moves, with pairwise different
  \<open>san\<close> as chess.js writes them, let the root search at the depth of the difficulty
  return the move \<open>best\<close>, and let the first random number lie in \<open>[0, 1)\<close>. At a
  difficulty whose error rate is 1 the promise never resolves to \<open>best\<close>; when the
  rounded product of the second random number and the number of other moves lies in
  \<open>[0, n)\<close>, as it does for doubles, it resolves to the legal move at the integer part
  of that product among the moves with another \<open>san\<close>. At a difficulty whose error
  rate is 0 it resolves to \<open>best\<close>, for every value of the random numbers. In
  general \<open>best\<close> is replaced exactly when the first random number is below the error
  rate. The table of settings is an argument here, since no difficulty of
  \<open>difficultySettings\<close> has error rate 1; \<open>findComputerMove\<close> is the instance at that
  table. How \<open>Math.random()\<close> is distributed is outside the model.
\<close>

theorem error_rate_extremes:
  assumes "findBestMoveForAnalysis fuel rd R game (s_depth (table dif)) = Some (Some best)"
    and "distinct (map m_san (legal_moves R (cur game)))"
    and "2 \<le> length (legal_moves R (cur game))"
    and "0 \<le> r1" and "r1 < 1"
  shows "(s_errorRate (table dif) = 1 \<longrightarrow>
            findComputerMoveWith table fuel rd R r1 r2 game dif \<noteq> Some (Move best)) \<and>
         (s_errorRate (table dif) = 1 \<and>
          0 \<le> rd (r2 * of_nat (length (filter (\<lambda>m. m_san m \<noteq> m_san best)
                                            (legal_moves R (cur game))))) \<and>
          rd (r2 * of_nat (length (filter (\<lambda>m. m_san m \<noteq> m_san best)
                                      (legal_moves R (cur game)))))
            < of_nat (length (filter (\<lambda>m. m_san m \<noteq> m_san best) (legal_moves R (cur game))))
          \<longrightarrow>
            (\<exists>m \<in> set (legal_moves R (cur game)).
               m \<noteq> best \<and>
               m = filter (\<lambda>m. m_san m \<noteq> m_san best) (legal_moves R (cur game)) !
                     nat \<lfloor>rd (r2 * of_nat (length (filter (\<lambda>m. m_san m \<noteq> m_san best)
                                                         (legal_moves R (cur game)))))\<rfloor> \<and>
               findComputerMoveWith table fuel rd R r1 r2 game dif = Some (Move m))) \<and>
         (s_errorRate (table dif) = 0 \<longrightarrow>
            findComputerMoveWith table fuel rd R r1 r2 game dif = Some (Move best)) \<and>
         (r1 < s_errorRate (table dif) \<longrightarrow>
            findComputerMoveWith table fuel rd R r1 r2 game dif \<noteq> Some (Move best)) \<and>
         (s_errorRate (table dif) \<le> r1 \<longrightarrow>
            findComputerMoveWith table fuel rd R r1 r2 game dif = Some (Move best)) \<and>
         findComputerMove fuel rd R r1 r2 game dif
           = findComputerMoveWith difficultySettings fuel rd R r1 r2 game dif"
proof -
  let ?ms = "legal_moves R (cur game)"
  let ?nb = "filter (\<lambda>m. m_san m \<noteq> m_san best) ?ms"
  let ?x = "rd (r2 * of_nat (length ?nb))"
  let ?res = "findComputerMoveWith table fuel rd R r1 r2 game dif"
  have ne: "0 < length ?nb"
    using other_san_exists [OF assms(2,3), of "m_san best"] by simp
  have len: "1 < length ?ms" using assms(3) by simp
  have sub: "r1 < s_errorRate (table dif) \<Longrightarrow>
        ?res = (if 0 \<le> \<lfloor>?x\<rfloor> \<and> \<lfloor>?x\<rfloor> < int (length ?nb)
                then Some (Move (?nb ! nat \<lfloor>?x\<rfloor>)) else Some Undefined)"
    using assms(1) len ne by (simp add: findComputerMoveWith_def Let_def)
  have keep: "s_errorRate (table dif) \<le> r1 \<Longrightarrow> ?res = Some (Move best)"
    using assms(1) by (simp add: findComputerMoveWith_def Let_def not_less [symmetric])
  have other: "\<And>k. k < length ?nb \<Longrightarrow> ?nb ! k \<in> set ?ms \<and> ?nb ! k \<noteq> best"
  proof -
    fix k
    assume "k < length ?nb"
    then have "?nb ! k \<in> set ?nb" by (rule nth_mem)
    then show "?nb ! k \<in> set ?ms \<and> ?nb ! k \<noteq> best" by auto
  qed
  have never: "r1 < s_errorRate (table dif) \<Longrightarrow> ?res \<noteq> Some (Move best)"
  proof -
    assume r: "r1 < s_errorRate (table dif)"
    show "?res \<noteq> Some (Move best)"
    proof (cases "0 \<le> \<lfloor>?x\<rfloor> \<and> \<lfloor>?x\<rfloor> < int (length ?nb)")
      case t: True
      then have k: "nat \<lfloor>?x\<rfloor> < length ?nb" using nat_less_iff by blast
      from sub [OF r] t have "?res = Some (Move (?nb ! nat \<lfloor>?x\<rfloor>))"
        by (simp only: if_P)
      moreover from other [OF k] have "?nb ! nat \<lfloor>?x\<rfloor> \<noteq> best" by blast
      ultimately show ?thesis by simp
    next
      case f: False
      from sub [OF r] f have "?res = Some Undefined"
        by (simp only: if_False)
      then show ?thesis by simp
    qed
  qed
  have pick: "r1 < s_errorRate (table dif) \<Longrightarrow> 0 \<le> ?x \<Longrightarrow> ?x < of_nat (length ?nb) \<Longrightarrow>
        \<exists>m \<in> set ?ms. m \<noteq> best \<and> m = ?nb ! nat \<lfloor>?x\<rfloor> \<and> ?res = Some (Move m)"
  proof -
    assume r: "r1 < s_errorRate (table dif)" and lo: "0 \<le> ?x" and hi: "?x < of_nat (length ?nb)"
    from lo have l: "0 \<le> \<lfloor>?x\<rfloor>" by simp
    from hi have h: "\<lfloor>?x\<rfloor> < int (length ?nb)" by (simp add: floor_less_iff)
    from l h have k: "nat \<lfloor>?x\<rfloor> < length ?nb" using nat_less_iff by blast
    from l h have t: "0 \<le> \<lfloor>?x\<rfloor> \<and> \<lfloor>?x\<rfloor> < int (length ?nb)" by blast
    from sub [OF r] t have "?res = Some (Move (?nb ! nat \<lfloor>?x\<rfloor>))"
      by (simp only: if_P)
    with other [OF k] show ?thesis by blast
  qed
  have "findComputerMove fuel rd R r1 r2 game dif
          = findComputerMoveWith difficultySettings fuel rd R r1 r2 game dif"
    by (simp add: findComputerMove_def)
  moreover have "s_errorRate (table dif) = 1 \<longrightarrow> ?res \<noteq> Some (Move best)"
    using never assms(5) by simp
  moreover have "s_errorRate (table dif) = 1 \<and> 0 \<le> ?x \<and> ?x < of_nat (length ?nb) \<longrightarrow>
        (\<exists>m \<in> set ?ms. m \<noteq> best \<and> m = ?nb ! nat \<lfloor>?x\<rfloor> \<and> ?res = Some (Move m))"
    using pick assms(5) by simp
  moreover have "s_errorRate (table dif) = 0 \<longrightarrow> ?res = Some (Move best)"
    using keep assms(4) by simp
  moreover have "r1 < s_errorRate (table dif) \<longrightarrow> ?res \<noteq> Some (Move best)"
    using never by blast
  moreover have "s_errorRate (table dif) \<le> r1 \<longrightarrow> ?res = Some (Move best)"
    using keep by blast
  ultimately show ?thesis by blast
qed

text \<open>
  The rook ending: at a table whose error rate is 1 the capture replaces the best move
  \<open>Kf1\<close>; at \<open>master\<close>, whose error rate is 0, the best move is played; at \<open>beginner\<close>
  with the random number \<open>1/2\<close>, below 0.8, the best move is not played.
\<close>

theorem error_rate_extremes_witness:
  "findBestMoveForAnalysis 5 (\<lambda>x. x) tree_rules (new_game pos_root)
     (s_depth ((\<lambda>d. \<lparr>s_depth = Num 1, s_errorRate = 1\<rparr>) beginner))
     = Some (Some (quiet ''Kf1'' King)) \<and>
   distinct (map m_san (legal_moves tree_rules (cur (new_game pos_root)))) \<and>
   2 \<le> length (legal_moves tree_rules (cur (new_game pos_root))) \<and>
   (0::rat) \<le> 1 / 2 \<and> (1 / 2 :: rat) < 1 \<and>
   s_errorRate ((\<lambda>d. \<lparr>s_depth = Num 1, s_errorRate = 1\<rparr>) beginner) = 1 \<and>
   findComputerMoveWith (\<lambda>d. \<lparr>s_depth = Num 1, s_errorRate = 1\<rparr>) 5 (\<lambda>x. x) tree_rules
     (1 / 2) (1 / 2) (new_game pos_root) beginner = Some (Move (capture ''Rxd7'' Rook Pawn)) \<and>
   s_errorRate (difficultySettings master) = 0 \<and>
   findComputerMove 8 (\<lambda>x. x) tree_rules (1 / 2) (1 / 2) (new_game pos_root) master
     = Some (Move (quiet ''Kf1'' King)) \<and>
   1 / 2 < s_errorRate (difficultySettings beginner) \<and>
   findComputerMove 5 (\<lambda>x. x) tree_rules (1 / 2) (1 / 2) (new_game pos_root) beginner
     \<noteq> Some (Move (quiet ''Kf1'' King))"
proof -
  let ?one = "\<lambda>d::Difficulty. \<lparr>s_depth = Num 1, s_errorRate = 1\<rparr>"
  let ?g = "new_game pos_root"
  let ?best = "quiet ''Kf1'' King"
  let ?nb = "filter (\<lambda>m. m_san m \<noteq> m_san ?best) (legal_moves tree_rules (cur ?g))"
  have f1: "findBestMoveForAnalysis 5 (\<lambda>x. x) tree_rules ?g (s_depth (?one beginner))
              = Some (Some ?best)"
    by code_simp
  have f2: "findBestMoveForAnalysis 5 (\<lambda>x. x) tree_rules ?g
              (s_depth (difficultySettings beginner)) = Some (Some ?best)"
    by code_simp
  have f4: "findBestMoveForAnalysis 8 (\<lambda>x. x) tree_rules ?g
              (s_depth (difficultySettings master)) = Some (Some ?best)"
    by code_simp
  have d: "distinct (map m_san (legal_moves tree_rules (cur ?g)))"
    by code_simp
  have l: "2 \<le> length (legal_moves tree_rules (cur ?g))"
    by code_simp
  have r: "(0::rat) \<le> 1 / 2" "(1 / 2 :: rat) < 1"
    by simp_all
  have e1: "s_errorRate (?one beginner) = 1"
    and e0: "s_errorRate (difficultySettings master) = 0"
    and e8: "1 / 2 < s_errorRate (difficultySettings beginner)"
    by simp_all
  have n: "length ?nb = 1"
    by code_simp
  have k: "?nb ! nat \<lfloor>(\<lambda>x::rat. x) (1 / 2 * of_nat (length ?nb))\<rfloor> = capture ''Rxd7'' Rook Pawn"
    unfolding n by code_simp
  have range: "0 \<le> (\<lambda>x::rat. x) (1 / 2 * of_nat (length ?nb))"
    "(\<lambda>x::rat. x) (1 / 2 * of_nat (length ?nb)) < of_nat (length ?nb)"
    unfolding n by simp_all
  from error_rate_extremes [where table = "?one" and dif = beginner and ?r2.0 = "1 / 2", OF f1 d l r] e1 range k
  have one: "findComputerMoveWith ?one 5 (\<lambda>x. x) tree_rules (1 / 2) (1 / 2) ?g beginner
               = Some (Move (capture ''Rxd7'' Rook Pawn))"
    by auto
  from error_rate_extremes [where table = "difficultySettings" and dif = master and ?r2.0 = "1 / 2", OF f4 d l r] e0
  have zero: "findComputerMove 8 (\<lambda>x. x) tree_rules (1 / 2) (1 / 2) ?g master
                = Some (Move ?best)"
    by simp
  from error_rate_extremes [where table = "difficultySettings" and dif = beginner and ?r2.0 = "1 / 2", OF f2 d l r] e8
  have some: "findComputerMove 5 (\<lambda>x. x) tree_rules (1 / 2) (1 / 2) ?g beginner
                \<noteq> Some (Move ?best)"
    by simp
  from f1 d l r e1 one e0 zero e8 some show ?thesis
    by blast
qed




text \<open>
  Claim C9. For a window with \<open>alpha \<le> beta\<close>, the value that \<open>quiescence\<close> returns lies
  in \<open>[alpha, beta]\<close>. It is fail-hard: where the exhaustive quiescence value \<open>x\<close> exists,
  the result is \<open>x\<close> clamped to the window, so exactly \<open>beta\<close> when \<open>x \<ge> beta\<close> and exactly
  \<open>alpha\<close> when \<open>x \<le> alpha\<close>.
\<close>

theorem quiescence_within_window:
  assumes "alpha \<le> beta" and "quiescence fuel R g alpha beta mx = Some (v, g')"
  shows "alpha \<le> v \<and> v \<le> beta \<and>
         (exhaustive_quiescence fuel R (cur g) mx = Some x \<longrightarrow> v = max alpha (min beta x))"
  using assms quiescence_bounds [OF assms] quiescence_exhaustive [of fuel R g mx x alpha beta]
  by auto

text \<open>After the rook takes on d7, Black to move, window \<open>[-500, 0]\<close>.\<close>

theorem quiescence_within_window_witness:
  "Num (-500) \<le> Num 0 \<and>
   quiescence 5 tree_rules (new_game pos_taken) (Num (-500)) (Num 0) False
     = Some (Num (-390), new_game pos_taken) \<and>
   exhaustive_quiescence 5 tree_rules (cur (new_game pos_taken)) False = Some (Num (-390)) \<and>
   Num (-500) \<le> Num (-390) \<and> Num (-390) \<le> Num 0 \<and>
   Num (-390) = max (Num (-500)) (min (Num 0) (Num (-390)))"
proof -
  have a: "Num (-500) \<le> Num 0" by simp
  have q: "quiescence 5 tree_rules (new_game pos_taken) (Num (-500)) (Num 0) False
     = Some (Num (-390), new_game pos_taken)"
    by code_simp
  have e: "exhaustive_quiescence 5 tree_rules (cur (new_game pos_taken)) False = Some (Num (-390))"
    by code_simp
  from quiescence_within_window [OF a q, of "Num (-390)"] a q e show ?thesis
    by blast
qed

text \<open>
  Claim C10. The loop of \<open>quiescence\<close> runs over moves whose flags contain \<open>c\<close> only: the
  result is the same when the rules engine generates no other move. An en-passant
  capture, whose flags are \<open>e\<close>, is therefore not among the moves searched, and the move
  ordering of \<open>minimax\<close> gives it the score 0.
\<close>

theorem en_passant_is_not_searched:
  assumes "m_flags m = ''e''" and "m_promotion m = None"
  shows "(\<forall>x \<in> set (captureMoves R p). isCapture x) \<and>
         m \<notin> set (captureMoves R p) \<and>
         quiescence fuel (R\<lparr>legal_moves := \<lambda>q. filter isCapture (legal_moves R q)\<rparr>) g alpha beta mx
           = quiescence fuel R g alpha beta mx \<and>
         orderScore m = 0"
proof -
  from assms(1) have nc: "\<not> isCapture m"
    by (simp add: isCapture_def)
  have all: "\<forall>x \<in> set (captureMoves R p). isCapture x"
    by (simp add: captureMoves_def)
  with nc have "m \<notin> set (captureMoves R p)" by blast
  moreover from nc assms(2) have "orderScore m = 0"
    by (simp add: orderScore_def)
  ultimately show ?thesis
    using all quiescence_only_captures by blast
qed

text \<open>
  The pawn on e5 can take en passant and win a pawn (130 against 2), the capture score
  would be 900; quiescence stands pat at 2.
\<close>

theorem en_passant_is_not_searched_witness:
  "m_flags en_passant = ''e'' \<and> m_promotion en_passant = None \<and>
   en_passant \<in> set (legal_moves tree_rules pos_en_passant) \<and>
   en_passant \<notin> set (captureMoves tree_rules pos_en_passant) \<and>
   orderScore en_passant = 0 \<and>
   10 * pieceValueOr0 (m_captured en_passant) - pieceValues (m_piece en_passant) = 900 \<and>
   evaluateBoard tree_rules (make_move tree_rules pos_en_passant en_passant) = Num 130 \<and>
   quiescence 5 tree_rules (new_game pos_en_passant) NegInfinity Infinity True
     = Some (Num 2, new_game pos_en_passant)"
proof -
  have f: "m_flags en_passant = ''e''" and p: "m_promotion en_passant = None"
    by (simp_all add: en_passant_def)
  have l: "en_passant \<in> set (legal_moves tree_rules pos_en_passant)"
    by code_simp
  have c: "10 * pieceValueOr0 (m_captured en_passant) - pieceValues (m_piece en_passant) = 900"
    by code_simp
  have e: "evaluateBoard tree_rules (make_move tree_rules pos_en_passant en_passant) = Num 130"
    by code_simp
  have q: "quiescence 5 tree_rules (new_game pos_en_passant) NegInfinity Infinity True
     = Some (Num 2, new_game pos_en_passant)"
    by code_simp
  from en_passant_is_not_searched [OF f p, of tree_rules pos_en_passant] f p l c e q
  show ?thesis
    by blast
qed

end
